theory Spec2Isabelle
  imports Main
begin

section \<open>Data model of the service layer\<close>

text \<open>
  The development embeds \<^verbatim>\<open>src/packages/runtime/services/ServiceLayer.ts\<close>.
  Objects of class \<^verbatim>\<open>ServiceRepr\<close> are mutable and shared between the layer's
  \<^verbatim>\<open>allServices\<close> array and the results of the lookup index, so they live in an
  explicit heap and are addressed by references.
\<close>

record InterfaceSpec =
  interfaceName :: string
  qualifier :: "string option"

text \<open>A declared dependency of a service: an interface specification together with the
  name under which the resolved instance is handed to the constructor.\<close>

record Dependency = InterfaceSpec +
  referenceName :: string

datatype ServiceState = NotConstructed | Constructing | Constructed | Destroyed

type_synonym ServiceRef = nat

type_synonym Instance = nat

record ServiceRepr =
  dependencies :: "Dependency list"
  state :: ServiceState
  useCount :: int
  serviceInstance :: "Instance option"

datatype ServiceLookupResult = Found ServiceRef | NotFound | Ambiguous

datatype DynamicLookupResult = LookupResult ServiceLookupResult | Undeclared

datatype ErrorId = INTERNAL

datatype Message =
    AlreadyStarted
  | NotStarted_msg
  | CycleDuringConstruction
  | InvalidServiceState
  | FailedToFindService InterfaceSpec ServiceLookupResult
  | InstanceExpected

datatype Error = Error ErrorId Message

text \<open>
  Calls into user code are recorded in a trace, newest first. A constructor call records
  the service, the \<^verbatim>\<open>references\<close> object it receives, the instance it returns and
  the service objects as they are at the moment of the call; a destructor call records the
  service and the instance that is torn down.
\<close>

datatype Call =
    ConstructorCall ServiceRef "string \<rightharpoonup> Instance" Instance "ServiceRef \<Rightarrow> ServiceRepr"
  | DestructorCall ServiceRef Instance

record Heap =
  services :: "ServiceRef \<Rightarrow> ServiceRepr"
  nextInstance :: nat
  calls :: "Call list"

record DependencyDeclarations =
  unqualified :: bool
  qualifiers :: "string set"

record PackageRepr =
  name :: string
  packageServices :: "ServiceRef list"
  uiReferences :: "InterfaceSpec list"

datatype LayerState = NotStarted | Started | LayerDestroyed

record ServiceLayer =
  serviceLookup :: "InterfaceSpec \<Rightarrow> ServiceLookupResult"
  declaredDependencies :: "string \<rightharpoonup> (string \<rightharpoonup> DependencyDeclarations)"
  allServices :: "ServiceRef list"
  layerState :: LayerState

section \<open>The methods of a service representation\<close>

definition updService :: "ServiceRef \<Rightarrow> (ServiceRepr \<Rightarrow> ServiceRepr) \<Rightarrow> Heap \<Rightarrow> Heap" where
  "updService s f h = h\<lparr>services := (services h)(s := f (services h s))\<rparr>"

text \<open>Modelled from the spec: class \<^verbatim>\<open>ServiceRepr\<close> is not among the sources. The
  instance is present iff the service is constructed; asking for it otherwise is an error.\<close>

definition getInstanceOrThrow :: "ServiceRef \<Rightarrow> Heap \<Rightarrow> Error + Instance" where
  "getInstanceOrThrow s h =
     (case serviceInstance (services h s) of
        None \<Rightarrow> Inl (Error INTERNAL InstanceExpected)
      | Some i \<Rightarrow> Inr i)"

text \<open>Modelled from the spec: class \<^verbatim>\<open>ServiceRepr\<close> is not among the sources.
  Sharing a constructed service increments its reference count.\<close>

definition addRef :: "ServiceRef \<Rightarrow> Heap \<Rightarrow> Heap" where
  "addRef s h = updService s (\<lambda>r. r\<lparr>useCount := useCount r + 1\<rparr>) h"

text \<open>Modelled from the spec: class \<^verbatim>\<open>ServiceRepr\<close> is not among the sources.
  Releasing a reference decrements the count and returns the new count.\<close>

definition removeRef :: "ServiceRef \<Rightarrow> Heap \<Rightarrow> int \<times> Heap" where
  "removeRef s h =
     (useCount (services h s) - 1, updService s (\<lambda>r. r\<lparr>useCount := useCount r - 1\<rparr>) h)"

text \<open>Modelled from the spec: class \<^verbatim>\<open>ServiceRepr\<close> is not among the sources.
  The source's comment at the call reads: sets state to 'constructing' to detect cycles.\<close>

definition beforeCreate :: "ServiceRef \<Rightarrow> Heap \<Rightarrow> Heap" where
  "beforeCreate s h = updService s (\<lambda>r. r\<lparr>state := Constructing\<rparr>) h"

text \<open>Modelled from the spec: class \<^verbatim>\<open>ServiceRepr\<close> is not among the sources.
  The service's own constructor runs on the collected references and yields a new object;
  the state becomes 'constructed', the count 1 and the instance is stored (the source's
  comment at the call: sets state to 'constructed', useCount is 1). The constructor is user
  code, opaque to the layer: its run is a trace entry and a fresh instance. The static
  \<^verbatim>\<open>properties\<close> passed along are not interpreted by the layer and are left out.\<close>

definition create :: "ServiceRef \<Rightarrow> (string \<rightharpoonup> Instance) \<Rightarrow> Heap \<Rightarrow> Instance \<times> Heap" where
  "create s references h =
     (let i = nextInstance h in
      (i, h\<lparr>services := (services h)
                (s := (services h s)\<lparr>state := Constructed, useCount := 1,
                                     serviceInstance := Some i\<rparr>),
            nextInstance := Suc i,
            calls := ConstructorCall s references i (services h) # calls h\<rparr>))"

text \<open>Modelled from the spec: class \<^verbatim>\<open>ServiceRepr\<close> is not among the sources.
  The service's own destructor runs on the instance, if there is one, the instance is
  dropped and the state becomes 'destroyed'.\<close>

definition destroy_repr :: "ServiceRef \<Rightarrow> Heap \<Rightarrow> Heap" where
  "destroy_repr s h =
     (case serviceInstance (services h s) of
        None \<Rightarrow> updService s (\<lambda>r. r\<lparr>state := Destroyed\<rparr>) h
      | Some i \<Rightarrow>
          (updService s (\<lambda>r. r\<lparr>state := Destroyed, serviceInstance := None\<rparr>) h)
            \<lparr>calls := DestructorCall s i # calls h\<rparr>)"

section \<open>The service layer\<close>

definition specOf :: "Dependency \<Rightarrow> InterfaceSpec" where
  "specOf d = \<lparr>interfaceName = interfaceName d, qualifier = qualifier d\<rparr>"

subsection \<open>The index of declared UI dependencies\<close>

definition addUiReference ::
  "InterfaceSpec \<Rightarrow> (string \<rightharpoonup> DependencyDeclarations) \<Rightarrow> (string \<rightharpoonup> DependencyDeclarations)" where
  "addUiReference uiReference packageEntry =
     (let interfaceEntry =
            (case packageEntry (interfaceName uiReference) of
               None \<Rightarrow> \<lparr>unqualified = False, qualifiers = {}\<rparr>
             | Some e \<Rightarrow> e)
      in packageEntry(interfaceName uiReference \<mapsto>
           (case qualifier uiReference of
              None \<Rightarrow> interfaceEntry\<lparr>unqualified := True\<rparr>
            | Some q \<Rightarrow> interfaceEntry\<lparr>qualifiers := insert q (qualifiers interfaceEntry)\<rparr>)))"

text \<open>The body of the outer loop: the entry of one package, stored under its name.\<close>

definition addPackageEntry ::
  "PackageRepr \<Rightarrow> (string \<rightharpoonup> (string \<rightharpoonup> DependencyDeclarations)) \<Rightarrow>
   (string \<rightharpoonup> (string \<rightharpoonup> DependencyDeclarations))" where
  "addPackageEntry pkg index =
     index(name pkg \<mapsto> fold addUiReference (uiReferences pkg) Map.empty)"

definition buildDependencyIndex ::
  "PackageRepr list \<Rightarrow> (string \<rightharpoonup> (string \<rightharpoonup> DependencyDeclarations))" where
  "buildDependencyIndex packages = fold addPackageEntry packages Map.empty"

text \<open>The constructor. The lookup index is the result of \<^verbatim>\<open>verifyDependencies\<close>,
  which is not among the sources; it is a parameter here.\<close>

definition newServiceLayer ::
  "(InterfaceSpec \<Rightarrow> ServiceLookupResult) \<Rightarrow> PackageRepr list \<Rightarrow> ServiceLayer" where
  "newServiceLayer lookup packages =
     \<lparr>serviceLookup = lookup,
      declaredDependencies = buildDependencyIndex packages,
      allServices = concat (map packageServices packages),
      layerState = NotStarted\<rparr>"

definition isDeclaredDependency :: "ServiceLayer \<Rightarrow> string \<Rightarrow> InterfaceSpec \<Rightarrow> bool" where
  "isDeclaredDependency L packageName spec =
     (case declaredDependencies L packageName of
        None \<Rightarrow> False
      | Some packageEntry \<Rightarrow>
          (case packageEntry (interfaceName spec) of
             None \<Rightarrow> False
           | Some interfaceEntry \<Rightarrow>
               (case qualifier spec of
                  None \<Rightarrow> unqualified interfaceEntry
                | Some q \<Rightarrow> q \<in> qualifiers interfaceEntry)))"

definition getService :: "ServiceLayer \<Rightarrow> string \<Rightarrow> InterfaceSpec \<Rightarrow> Error + DynamicLookupResult" where
  "getService L packageName spec =
     (if layerState L \<noteq> Started then Inl (Error INTERNAL NotStarted_msg)
      else if \<not> isDeclaredDependency L packageName spec then Inr Undeclared
      else Inr (LookupResult (serviceLookup L spec)))"

subsection \<open>Construction\<close>

definition mustGet :: "(InterfaceSpec \<Rightarrow> ServiceLookupResult) \<Rightarrow> InterfaceSpec \<Rightarrow> Error + ServiceRef" where
  "mustGet lookup spec =
     (case lookup spec of
        Found service \<Rightarrow> Inr service
      | result \<Rightarrow> Inl (Error INTERNAL (FailedToFindService spec result)))"

text \<open>The loop over the dependencies inside \<^verbatim>\<open>createService\<close>. Its first argument
  is the recursive call. An exception leaves the loop with the heap as it is then.
  \<^verbatim>\<open>None\<close> is reserved for a recursion that has not come back within its fuel.\<close>

fun createDependencies ::
  "(ServiceRef \<Rightarrow> Heap \<Rightarrow> ((Error + Instance) \<times> Heap) option) \<Rightarrow>
   (InterfaceSpec \<Rightarrow> ServiceLookupResult) \<Rightarrow> Dependency list \<Rightarrow> (string \<rightharpoonup> Instance) \<Rightarrow> Heap \<Rightarrow>
   ((Error + (string \<rightharpoonup> Instance)) \<times> Heap) option" where
  "createDependencies recur lookup [] instances h = Some (Inr instances, h)"
| "createDependencies recur lookup (d # ds) instances h =
     (case mustGet lookup (specOf d) of
        Inl e \<Rightarrow> Some (Inl e, h)
      | Inr serviceRef \<Rightarrow>
          (case recur serviceRef h of
             None \<Rightarrow> None
           | Some (Inl e, h') \<Rightarrow> Some (Inl e, h')
           | Some (Inr i, h') \<Rightarrow>
               createDependencies recur lookup ds (instances(referenceName d \<mapsto> i)) h'))"

primrec createService ::
  "nat \<Rightarrow> (InterfaceSpec \<Rightarrow> ServiceLookupResult) \<Rightarrow> ServiceRef \<Rightarrow> Heap \<Rightarrow>
   ((Error + Instance) \<times> Heap) option" where
  "createService 0 lookup service h = None"
| "createService (Suc fuel) lookup service h =
     (if state (services h service) = Constructed then
        (case getInstanceOrThrow service h of
           Inl e \<Rightarrow> Some (Inl e, h)
         | Inr i \<Rightarrow> Some (Inr i, addRef service h))
      else if state (services h service) = Constructing then
        Some (Inl (Error INTERNAL CycleDuringConstruction), h)
      else if state (services h service) \<noteq> NotConstructed then
        Some (Inl (Error INTERNAL InvalidServiceState), h)
      else
        (let h1 = beforeCreate service h in
         case createDependencies (createService fuel lookup) lookup
                (dependencies (services h1 service)) Map.empty h1 of
           None \<Rightarrow> None
         | Some (Inl e, h2) \<Rightarrow> Some (Inl e, h2)
         | Some (Inr instances, h2) \<Rightarrow>
             (case create service instances h2 of (i, h3) \<Rightarrow> Some (Inr i, h3))))"

text \<open>The loop of \<^verbatim>\<open>start\<close> over all services.\<close>

fun createAll ::
  "(ServiceRef \<Rightarrow> Heap \<Rightarrow> ((Error + Instance) \<times> Heap) option) \<Rightarrow> ServiceRef list \<Rightarrow> Heap \<Rightarrow>
   ((Error + unit) \<times> Heap) option" where
  "createAll recur [] h = Some (Inr (), h)"
| "createAll recur (s # ss) h =
     (case recur s h of
        None \<Rightarrow> None
      | Some (Inl e, h') \<Rightarrow> Some (Inl e, h')
      | Some (Inr i, h') \<Rightarrow> createAll recur ss h')"

definition start ::
  "nat \<Rightarrow> ServiceLayer \<Rightarrow> Heap \<Rightarrow> ((Error + unit) \<times> ServiceLayer \<times> Heap) option" where
  "start fuel L h =
     (if layerState L \<noteq> NotStarted then Some (Inl (Error INTERNAL AlreadyStarted), L, h)
      else
        (case createAll (createService fuel (serviceLookup L)) (allServices L) h of
           None \<Rightarrow> None
         | Some (Inl e, h') \<Rightarrow> Some (Inl e, L, h')
         | Some (Inr u, h') \<Rightarrow> Some (Inr (), L\<lparr>layerState := Started\<rparr>, h')))"

subsection \<open>Destruction\<close>

text \<open>The loop over the dependencies inside \<^verbatim>\<open>destroyService\<close>: a dependency whose
  lookup is not 'found' is passed over.\<close>

fun destroyDependencies ::
  "(ServiceRef \<Rightarrow> Heap \<Rightarrow> Heap option) \<Rightarrow> (InterfaceSpec \<Rightarrow> ServiceLookupResult) \<Rightarrow>
   Dependency list \<Rightarrow> Heap \<Rightarrow> Heap option" where
  "destroyDependencies recur lookup [] h = Some h"
| "destroyDependencies recur lookup (d # ds) h =
     (case lookup (specOf d) of
        Found service \<Rightarrow>
          (case recur service h of
             None \<Rightarrow> None
           | Some h' \<Rightarrow> destroyDependencies recur lookup ds h')
      | lookupResult \<Rightarrow> destroyDependencies recur lookup ds h)"

primrec destroyService ::
  "nat \<Rightarrow> (InterfaceSpec \<Rightarrow> ServiceLookupResult) \<Rightarrow> ServiceRef \<Rightarrow> Heap \<Rightarrow> Heap option" where
  "destroyService 0 lookup service h = None"
| "destroyService (Suc fuel) lookup service h =
     (if state (services h service) = Destroyed then Some h
      else
        (case removeRef service h of
           (n, h1) \<Rightarrow>
             (let h2 = (if n \<le> 0 then destroy_repr service h1 else h1) in
              destroyDependencies (destroyService fuel lookup) lookup
                (dependencies (services h2 service)) h2)))"

fun destroyAll ::
  "(ServiceRef \<Rightarrow> Heap \<Rightarrow> Heap option) \<Rightarrow> ServiceRef list \<Rightarrow> Heap \<Rightarrow> Heap option" where
  "destroyAll recur [] h = Some h"
| "destroyAll recur (s # ss) h =
     (case recur s h of None \<Rightarrow> None | Some h' \<Rightarrow> destroyAll recur ss h')"

definition destroy :: "nat \<Rightarrow> ServiceLayer \<Rightarrow> Heap \<Rightarrow> (ServiceLayer \<times> Heap) option" where
  "destroy fuel L h =
     (case destroyAll (destroyService fuel (serviceLookup L)) (allServices L) h of
        None \<Rightarrow> None
      | Some h' \<Rightarrow> Some (L\<lparr>layerState := LayerDestroyed\<rparr>, h'))"

section \<open>Notions used in the statements\<close>

text \<open>A package declares a UI reference to an interface specification when one of its
  references has the same interface name and the same qualifier (both absent, or both
  present and equal).\<close>

definition declares :: "PackageRepr \<Rightarrow> InterfaceSpec \<Rightarrow> bool" where
  "declares pkg spec =
     (\<exists>u \<in> set (uiReferences pkg).
        interfaceName u = interfaceName spec \<and> qualifier u = qualifier spec)"

text \<open>The part of the heap that construction leaves alone: the declared dependencies of
  every service, and the state and instance of every service that has left the state
  'not-constructed'.\<close>

definition frame :: "Heap \<Rightarrow> Heap \<Rightarrow> bool" where
  "frame h h' \<longleftrightarrow>
     (\<forall>r. dependencies (services h' r) = dependencies (services h r) \<and>
          (state (services h r) \<noteq> NotConstructed \<longrightarrow>
             state (services h' r) = state (services h r) \<and>
             serviceInstance (services h' r) = serviceInstance (services h r)))"

text \<open>A constructor call is in order when, at the moment of the call, the service itself
  is under construction and every declared dependency resolves to a service that is in
  state 'constructed'.\<close>

definition dependenciesConstructed :: "(InterfaceSpec \<Rightarrow> ServiceLookupResult) \<Rightarrow> Call \<Rightarrow> bool" where
  "dependenciesConstructed lk c =
     (case c of
        ConstructorCall s references i snapshot \<Rightarrow>
          state (snapshot s) = Constructing \<and>
          (\<forall>d\<in>set (dependencies (snapshot s)).
             case lk (specOf d) of
               Found t \<Rightarrow> state (snapshot t) = Constructed
             | _ \<Rightarrow> False)
      | DestructorCall s i \<Rightarrow> True)"

definition constructorRuns :: "(InterfaceSpec \<Rightarrow> ServiceLookupResult) \<Rightarrow> Heap \<Rightarrow> Heap \<Rightarrow> bool" where
  "constructorRuns lk h h' \<longleftrightarrow>
     (\<exists>new. calls h' = new @ calls h \<and>
        (\<forall>c\<in>set new. dependenciesConstructed lk c) \<and>
        (\<forall>s. state (services h' s) = Constructed \<longrightarrow>
             state (services h s) = Constructed \<or>
             (\<exists>references i snapshot. ConstructorCall s references i snapshot \<in> set new)))"

text \<open>The heap of a layer that has just been built: every service representation is
  'not-constructed', unreferenced and without an instance, no instance has been allocated
  and no user code has run. The argument gives each service its declared dependencies.\<close>

definition freshService :: "Dependency list \<Rightarrow> ServiceRepr" where
  "freshService ds =
     \<lparr>dependencies = ds, state = NotConstructed, useCount = 0, serviceInstance = None\<rparr>"

definition freshHeap :: "(ServiceRef \<Rightarrow> Dependency list) \<Rightarrow> Heap" where
  "freshHeap D = \<lparr>services = (\<lambda>r. freshService (D r)), nextInstance = 0, calls = []\<rparr>"

text \<open>The number of services of a set that are still in state 'not-constructed': the measure
  that bounds the depth of recursive construction.\<close>

definition pending :: "ServiceRef set \<Rightarrow> Heap \<Rightarrow> nat" where
  "pending A h = card {r \<in> A. state (services h r) = NotConstructed}"

text \<open>The lookup index is built over the services of the layer: whatever it finds is one of
  them.\<close>

definition lookupClosed :: "ServiceLayer \<Rightarrow> bool" where
  "lookupClosed L \<longleftrightarrow>
     (\<forall>spec t. serviceLookup L spec = Found t \<longrightarrow> t \<in> set (allServices L))"

text \<open>Heaps that construction alone produces: no service is destroyed, and a constructed
  service is referenced at least once, has an instance that has been allocated, and all its
  declared dependencies are resolved, constructed, and were instantiated before it.\<close>

definition wellFormed :: "(InterfaceSpec \<Rightarrow> ServiceLookupResult) \<Rightarrow> Heap \<Rightarrow> bool" where
  "wellFormed lk h \<longleftrightarrow>
     (\<forall>s. state (services h s) \<noteq> Destroyed \<and>
        (state (services h s) = Constructed \<longrightarrow>
           1 \<le> useCount (services h s) \<and>
           (\<exists>i. serviceInstance (services h s) = Some i \<and> i < nextInstance h \<and>
              (\<forall>d\<in>set (dependencies (services h s)).
                 \<exists>t j. lk (specOf d) = Found t \<and> state (services h t) = Constructed \<and>
                       serviceInstance (services h t) = Some j \<and> j < i))))"

text \<open>The edges of the dependency graph: a service of the layer, and a service that the
  lookup index finds for one of its declared dependencies.\<close>

definition dependencyGraph :: "ServiceLayer \<Rightarrow> Heap \<Rightarrow> (ServiceRef \<times> ServiceRef) set" where
  "dependencyGraph L h =
     {(s, t). s \<in> set (allServices L) \<and>
        (\<exists>d\<in>set (dependencies (services h s)). serviceLookup L (specOf d) = Found t)}"

text \<open>Every declared dependency of every service of the layer is resolved by the lookup
  index; the constructor of the layer checks this through \<^verbatim>\<open>verifyDependencies\<close>.\<close>

definition dependenciesResolved :: "ServiceLayer \<Rightarrow> Heap \<Rightarrow> bool" where
  "dependenciesResolved L h \<longleftrightarrow>
     (\<forall>s\<in>set (allServices L). \<forall>d\<in>set (dependencies (services h s)).
        \<exists>t. serviceLookup L (specOf d) = Found t)"

text \<open>No service has left the state 'not-constructed'.\<close>

definition fresh :: "Heap \<Rightarrow> bool" where
  "fresh h \<longleftrightarrow> (\<forall>r. state (services h r) = NotConstructed)"

text \<open>The first half of \<^verbatim>\<open>destroyService\<close> on a service that is not destroyed: the
  reference is removed, and the service is destroyed when the new count is zero or below.\<close>

definition release :: "ServiceRef \<Rightarrow> Heap \<Rightarrow> Heap" where
  "release s h = (case removeRef s h of (n, h1) \<Rightarrow> if n \<le> 0 then destroy_repr s h1 else h1)"

text \<open>What a service still holds against destruction: nothing once it is destroyed, else one
  visit more than its positive reference count.\<close>

definition holds :: "ServiceRepr \<Rightarrow> nat" where
  "holds r = (if state r = Destroyed then 0 else Suc (nat (useCount r)))"

text \<open>The sum over a set of services: the measure that bounds the depth of recursive
  destruction.\<close>

definition remaining :: "ServiceRef set \<Rightarrow> Heap \<Rightarrow> nat" where
  "remaining A h = (\<Sum>r\<in>A. holds (services h r))"

text \<open>What destruction does to a heap: destroyed services stay destroyed, a service that is
  left alive keeps its state and instance and loses references at most, the trace only grows,
  and the destructor of every instance whose service becomes destroyed is in the trace.\<close>

definition tornDown :: "Heap \<Rightarrow> Heap \<Rightarrow> bool" where
  "tornDown h h' \<longleftrightarrow>
     (\<forall>s. state (services h s) = Destroyed \<longrightarrow> state (services h' s) = Destroyed) \<and>
     (\<forall>s. state (services h' s) \<noteq> Destroyed \<longrightarrow>
          state (services h' s) = state (services h s) \<and>
          serviceInstance (services h' s) = serviceInstance (services h s) \<and>
          useCount (services h' s) \<le> useCount (services h s)) \<and>
     (\<forall>c. c \<in> set (calls h) \<longrightarrow> c \<in> set (calls h')) \<and>
     (\<forall>s i. state (services h s) \<noteq> Destroyed \<and> state (services h' s) = Destroyed \<and>
            serviceInstance (services h s) = Some i \<longrightarrow> DestructorCall s i \<in> set (calls h'))"

text \<open>The references object handed to a constructor is right for a list of dependencies
  when every reference name holds the instance of the provider of a dependency of that name.\<close>

definition referencesResolved ::
  "(InterfaceSpec \<Rightarrow> ServiceLookupResult) \<Rightarrow> Dependency list \<Rightarrow> (string \<rightharpoonup> Instance) \<Rightarrow> Heap \<Rightarrow> bool" where
  "referencesResolved lk ds references h \<longleftrightarrow>
     (\<forall>d\<in>set ds. \<exists>d'\<in>set ds. referenceName d' = referenceName d \<and>
        (\<exists>t. lk (specOf d') = Found t \<and>
             references (referenceName d) = serviceInstance (services h t)))"

text \<open>The number of dependencies in a list that the lookup index resolves to a given service.\<close>

definition edgeCount :: "(InterfaceSpec \<Rightarrow> ServiceLookupResult) \<Rightarrow> Dependency list \<Rightarrow> ServiceRef \<Rightarrow> nat" where
  "edgeCount lk ds t = length (filter (\<lambda>d. lk (specOf d) = Found t) ds)"

text \<open>The references that the constructed services of a set hold on a service through their
  declared dependencies.\<close>

definition inbound :: "(InterfaceSpec \<Rightarrow> ServiceLookupResult) \<Rightarrow> ServiceRef set \<Rightarrow> Heap \<Rightarrow> ServiceRef \<Rightarrow> int" where
  "inbound lk A h t =
     (\<Sum>u\<in>A. if state (services h u) = Constructed
              then int (edgeCount lk (dependencies (services h u)) t) else 0)"

text \<open>The references on a service that no dependency of a constructed service accounts for:
  those taken by the loop of \<^verbatim>\<open>start\<close> itself and, while a construction is under
  way, by the dependencies it has already walked.\<close>

definition topRefs :: "(InterfaceSpec \<Rightarrow> ServiceLookupResult) \<Rightarrow> ServiceRef set \<Rightarrow> Heap \<Rightarrow> ServiceRef \<Rightarrow> int" where
  "topRefs lk A h t =
     (if state (services h t) = Constructed then useCount (services h t) else 0) - inbound lk A h t"

text \<open>A constructor call has been handed the providers' instances when, in the given heap,
  its service is constructed with the instance the call returned, and its references hold,
  under the name of each declared dependency, the instance of the constructed provider of a
  dependency of that name.\<close>

definition handedOver :: "(InterfaceSpec \<Rightarrow> ServiceLookupResult) \<Rightarrow> Heap \<Rightarrow> Call \<Rightarrow> bool" where
  "handedOver lk h c =
     (case c of
        ConstructorCall s references i snapshot \<Rightarrow>
          state (services h s) = Constructed \<and> serviceInstance (services h s) = Some i \<and>
          (\<forall>d\<in>set (dependencies (services h s)).
             \<exists>d'\<in>set (dependencies (services h s)). referenceName d' = referenceName d \<and>
               (\<exists>t. lk (specOf d') = Found t \<and> state (services h t) = Constructed \<and>
                    references (referenceName d) = serviceInstance (services h t)))
      | DestructorCall s i \<Rightarrow> True)"

text \<open>Constructed services stay constructed and keep their instance; declared dependencies
  never change.\<close>

definition keeps :: "Heap \<Rightarrow> Heap \<Rightarrow> bool" where
  "keeps h h' \<longleftrightarrow>
     (\<forall>r. dependencies (services h' r) = dependencies (services h r) \<and>
          (state (services h r) = Constructed \<longrightarrow>
             state (services h' r) = Constructed \<and>
             serviceInstance (services h' r) = serviceInstance (services h r)))"

text \<open>The calls added to the trace have been handed the providers' instances, and every
  service that has become constructed has a constructor call among them.\<close>

definition handsOver :: "(InterfaceSpec \<Rightarrow> ServiceLookupResult) \<Rightarrow> Heap \<Rightarrow> Heap \<Rightarrow> bool" where
  "handsOver lk h h' \<longleftrightarrow>
     keeps h h' \<and>
     (\<exists>new. calls h' = new @ calls h \<and> (\<forall>c\<in>set new. handedOver lk h' c) \<and>
        (\<forall>s. state (services h' s) = Constructed \<longrightarrow>
             state (services h s) = Constructed \<or>
             (\<exists>references i snapshot. ConstructorCall s references i snapshot \<in> set new)))"

text \<open>The services whose destructor has run, as the trace lists them: latest first.\<close>

definition destructorRuns :: "Call list \<Rightarrow> ServiceRef list" where
  "destructorRuns cs = concat (map (\<lambda>c. case c of DestructorCall s i \<Rightarrow> [s] | _ \<Rightarrow> []) cs)"

text \<open>The life of a layer that shares a provider: \<^verbatim>\<open>start\<close> and then
  \<^verbatim>\<open>destroy\<close> come back without an exception, the destructors have run in the given
  order (latest first), and the three services are destroyed.\<close>

definition sharingLifecycle ::
  "nat \<Rightarrow> nat \<Rightarrow> ServiceLayer \<Rightarrow> Heap \<Rightarrow> ServiceRef \<Rightarrow> ServiceRef \<Rightarrow> ServiceRef \<Rightarrow> ServiceRef list \<Rightarrow> bool" where
  "sharingLifecycle fuel fuel' L h s1 s2 p order \<longleftrightarrow>
     (\<exists>h1 h2.
        start fuel L h = Some (Inr (), L\<lparr>layerState := Started\<rparr>, h1) \<and>
        destroy fuel' (L\<lparr>layerState := Started\<rparr>) h1
          = Some (L\<lparr>layerState := LayerDestroyed\<rparr>, h2) \<and>
        destructorRuns (calls h2) = order @ destructorRuns (calls h) \<and>
        state (services h2 s1) = Destroyed \<and> state (services h2 s2) = Destroyed \<and>
        state (services h2 p) = Destroyed)"

text \<open>The references that the services of a set which are constructed or under construction
  claim on a service through their declared dependencies.\<close>

definition claimed :: "(InterfaceSpec \<Rightarrow> ServiceLookupResult) \<Rightarrow> ServiceRef set \<Rightarrow> Heap \<Rightarrow> ServiceRef \<Rightarrow> int" where
  "claimed lk A h t =
     (\<Sum>u\<in>A. if state (services h u) = Constructed \<or> state (services h u) = Constructing
              then int (edgeCount lk (dependencies (services h u)) t) else 0)"

text \<open>The references on a constructed service that no such claim accounts for: while
  construction is in progress, the visits of the loop of \<^verbatim>\<open>start\<close> bound it from above.\<close>

definition layerRefs :: "(InterfaceSpec \<Rightarrow> ServiceLookupResult) \<Rightarrow> ServiceRef set \<Rightarrow> Heap \<Rightarrow> ServiceRef \<Rightarrow> int" where
  "layerRefs lk A h t =
     (if state (services h t) = Constructed then useCount (services h t) else 0) - claimed lk A h t"

text \<open>What construction does not touch: a constructed service stays constructed, and a
  service that is not constructed afterwards has the reference count it had before.\<close>

definition idle :: "Heap \<Rightarrow> Heap \<Rightarrow> bool" where
  "idle h h' \<longleftrightarrow>
     (\<forall>r. (state (services h r) = Constructed \<longrightarrow> state (services h' r) = Constructed) \<and>
          (state (services h' r) \<noteq> Constructed \<longrightarrow>
             useCount (services h' r) = useCount (services h r)))"

text \<open>The credit that destruction works with: against a set of services of the layer that
  are still to be released through their dependents and a number of visits still to come
  for each service, no living service holds more references than the visits and the
  dependencies of those services account for, and a living service outside the set holds
  at least one.\<close>

definition credited ::
  "(InterfaceSpec \<Rightarrow> ServiceLookupResult) \<Rightarrow> ServiceRef set \<Rightarrow> Heap \<Rightarrow> ServiceRef set \<Rightarrow>
   (ServiceRef \<Rightarrow> nat) \<Rightarrow> bool" where
  "credited lk A h U x \<longleftrightarrow>
     U \<subseteq> A \<and>
     (\<forall>u\<in>U. state (services h u) \<noteq> Destroyed) \<and>
     (\<forall>t\<in>A. state (services h t) \<noteq> Destroyed \<longrightarrow>
        useCount (services h t)
          \<le> int (x t) + (\<Sum>u\<in>U. int (edgeCount lk (dependencies (services h u)) t))) \<and>
     (\<forall>t\<in>A. state (services h t) \<noteq> Destroyed \<and> t \<notin> U \<longrightarrow> 1 \<le> useCount (services h t))"

text \<open>The services that the declared dependencies of a list resolve to, in the order of the
  list: a dependency whose lookup is not 'found' contributes none.\<close>

definition foundServices :: "(InterfaceSpec \<Rightarrow> ServiceLookupResult) \<Rightarrow> Dependency list \<Rightarrow> ServiceRef list" where
  "foundServices lk ds =
     concat (map (\<lambda>d. case lk (specOf d) of Found t \<Rightarrow> [t] | _ \<Rightarrow> []) ds)"

text \<open>What destruction does to the references: no count grows, a destroyed service stays
  destroyed, and a service that has become destroyed has lost a reference.\<close>

definition released :: "Heap \<Rightarrow> Heap \<Rightarrow> bool" where
  "released h h' \<longleftrightarrow>
     (\<forall>r. useCount (services h' r) \<le> useCount (services h r) \<and>
          (state (services h r) = Destroyed \<longrightarrow> state (services h' r) = Destroyed) \<and>
          (state (services h r) \<noteq> Destroyed \<and> state (services h' r) = Destroyed \<longrightarrow>
             useCount (services h' r) < useCount (services h r)))"

section \<open>Example configurations\<close>

text \<open>Two packages with UI references, and a lookup index that finds one provider of
  interface X, reports interface Y with qualifier v1 as ambiguous and knows no other
  interface.\<close>

definition uiPackages :: "PackageRepr list" where
  "uiPackages =
     [\<lparr>name = ''pkgA'', packageServices = [0],
       uiReferences = [\<lparr>interfaceName = ''X'', qualifier = None\<rparr>,
                       \<lparr>interfaceName = ''Y'', qualifier = Some ''v1''\<rparr>,
                       \<lparr>interfaceName = ''Z'', qualifier = None\<rparr>]\<rparr>,
      \<lparr>name = ''pkgB'', packageServices = [], uiReferences = []\<rparr>]"

definition uiLookup :: "InterfaceSpec \<Rightarrow> ServiceLookupResult" where
  "uiLookup spec =
     (if interfaceName spec = ''X'' \<and> qualifier spec = None then Found 0
      else if interfaceName spec = ''Y'' \<and> qualifier spec = Some ''v1'' then Ambiguous
      else NotFound)"

text \<open>The sharing scenario: services 0 and 1 both require interface P, which service 2
  provides; all three belong to one package.\<close>

definition needs :: "string \<Rightarrow> string \<Rightarrow> Dependency" where
  "needs i r = \<lparr>interfaceName = i, qualifier = None, referenceName = r\<rparr>"

definition sharingDeps :: "ServiceRef \<Rightarrow> Dependency list" where
  "sharingDeps r =
     (if r = 0 then [needs ''P'' ''provider''] else if r = 1 then [needs ''P'' ''p''] else [])"

definition sharingLookup :: "InterfaceSpec \<Rightarrow> ServiceLookupResult" where
  "sharingLookup spec =
     (if interfaceName spec = ''P'' \<and> qualifier spec = None then Found 2 else NotFound)"

definition sharingLayer :: ServiceLayer where
  "sharingLayer = newServiceLayer sharingLookup
     [\<lparr>name = ''app'', packageServices = [0, 1, 2], uiReferences = []\<rparr>]"

text \<open>The method calls that \<^verbatim>\<open>start\<close> makes in the sharing scenario, in order:
  service 0 is entered, its dependency 2 is created, 0 is created; service 1 is entered,
  shares 2 and is created; the loop reaches 2 itself and takes one more reference.\<close>

definition sharingStarted :: Heap where
  "sharingStarted =
     addRef 2
      (snd (create 1 [''p'' \<mapsto> 0]
        (addRef 2
          (beforeCreate 1
            (snd (create 0 [''provider'' \<mapsto> 0]
              (snd (create 2 Map.empty
                (beforeCreate 2
                  (beforeCreate 0 (freshHeap sharingDeps)))))))))))"

definition startedUiLayer :: ServiceLayer where
  "startedUiLayer = (newServiceLayer uiLookup uiPackages)\<lparr>layerState := Started\<rparr>"

text \<open>A dependency cycle: service 0 requires interface B of service 1, which requires
  interface A of service 0. Service 2 stands alone and comes first in the layer. The loop
  of \<^verbatim>\<open>start\<close> creates 2, enters 0, enters 1 and finds 0 under construction.\<close>

definition cycleDeps :: "ServiceRef \<Rightarrow> Dependency list" where
  "cycleDeps r =
     (if r = 0 then [needs ''B'' ''b''] else if r = 1 then [needs ''A'' ''a''] else [])"

definition cycleLookup :: "InterfaceSpec \<Rightarrow> ServiceLookupResult" where
  "cycleLookup spec =
     (if interfaceName spec = ''A'' \<and> qualifier spec = None then Found 0
      else if interfaceName spec = ''B'' \<and> qualifier spec = None then Found 1
      else if interfaceName spec = ''C'' \<and> qualifier spec = None then Found 2
      else NotFound)"

definition cycleLayer :: ServiceLayer where
  "cycleLayer = newServiceLayer cycleLookup
     [\<lparr>name = ''app'', packageServices = [2, 0, 1], uiReferences = []\<rparr>]"

definition cycleFailed :: Heap where
  "cycleFailed =
     beforeCreate 1
       (beforeCreate 0
         (snd (create 2 Map.empty
           (beforeCreate 2 (freshHeap cycleDeps)))))"

text \<open>The method calls that \<^verbatim>\<open>destroy\<close> makes in the sharing scenario after
  \<^verbatim>\<open>start\<close>: service 0 is released and destroyed, its dependency 2 is released; the
  same for service 1; the loop reaches 2 itself and its last reference goes.\<close>

definition sharingDestroyed :: Heap where
  "sharingDestroyed =
     release 2 (release 2 (release 1 (release 2 (release 0 sharingStarted))))"

text \<open>A service with a dependency that the lookup index does not resolve: service 0 requires
  interfaces Q (no provider) and P (service 2).\<close>

definition danglingDeps :: "ServiceRef \<Rightarrow> Dependency list" where
  "danglingDeps r = (if r = 0 then [needs ''Q'' ''q'', needs ''P'' ''p''] else [])"

definition danglingLayer :: ServiceLayer where
  "danglingLayer = newServiceLayer sharingLookup
     [\<lparr>name = ''app'', packageServices = [0, 2], uiReferences = []\<rparr>]"

text \<open>The two services of the dangling configuration with the provider first in the layer.
  \<^verbatim>\<open>start\<close> creates service 2, enters 0 and fails on interface Q; a second \<^verbatim>\<open>start\<close>
  takes one more reference on 2 and finds 0 under construction. \<^verbatim>\<open>destroy\<close> then
  releases 2, releases and destroys 0, passes over Q and releases 2 through P.\<close>

definition providerFirstLayer :: ServiceLayer where
  "providerFirstLayer = newServiceLayer sharingLookup
     [\<lparr>name = ''app'', packageServices = [2, 0], uiReferences = []\<rparr>]"

definition danglingFailed :: Heap where
  "danglingFailed =
     beforeCreate 0 (snd (create 2 Map.empty (beforeCreate 2 (freshHeap danglingDeps))))"

definition danglingRestarted :: Heap where
  "danglingRestarted = addRef 2 danglingFailed"

definition danglingDestroyed :: Heap where
  "danglingDestroyed = release 2 (release 0 (release 2 danglingRestarted))"

text \<open>The cycle configuration after a second \<^verbatim>\<open>start\<close>, which takes one more reference
  on service 2 before it fails again, and what \<^verbatim>\<open>destroy\<close> leaves of it: 2 is released
  once, 0 and then 1 are released and destroyed.\<close>

definition cycleRestarted :: Heap where
  "cycleRestarted = addRef 2 cycleFailed"

definition cycleLeft :: Heap where
  "cycleLeft = release 1 (release 0 (release 2 cycleRestarted))"

text \<open>A shared provider whose dependent has dependents of its own: services 0 and 1 require
  interface S of service 2; services 2 and 3 require interface P of service 4. The loop
  of \<^verbatim>\<open>start\<close> enters 0, enters 2, creates 4, 2 and 0; enters 1, shares 2 and creates
  1; takes a reference on 2; enters 3, shares 4 and creates 3; takes a reference on 4.\<close>

definition nestedDeps :: "ServiceRef \<Rightarrow> Dependency list" where
  "nestedDeps r =
     (if r = 0 then [needs ''S'' ''s''] else if r = 1 then [needs ''S'' ''s'']
      else if r = 2 then [needs ''P'' ''p''] else if r = 3 then [needs ''P'' ''p''] else [])"

definition nestedLookup :: "InterfaceSpec \<Rightarrow> ServiceLookupResult" where
  "nestedLookup spec =
     (if interfaceName spec = ''S'' \<and> qualifier spec = None then Found 2
      else if interfaceName spec = ''P'' \<and> qualifier spec = None then Found 4
      else NotFound)"

definition nestedLayer :: ServiceLayer where
  "nestedLayer = newServiceLayer nestedLookup
     [\<lparr>name = ''app'', packageServices = [0, 1, 2, 3, 4], uiReferences = []\<rparr>]"

definition nestedStarted :: Heap where
  "nestedStarted =
     addRef 4
      (snd (create 3 [''p'' \<mapsto> 0]
       (addRef 4
        (beforeCreate 3
         (addRef 2
          (snd (create 1 [''s'' \<mapsto> 1]
           (addRef 2
            (beforeCreate 1
             (snd (create 0 [''s'' \<mapsto> 1]
              (snd (create 2 [''p'' \<mapsto> 0]
               (snd (create 4 Map.empty
                (beforeCreate 4
                 (beforeCreate 2
                  (beforeCreate 0
                   (freshHeap nestedDeps)))))))))))))))))))"

text \<open>The method calls of \<^verbatim>\<open>destroy\<close> on that heap up to the destruction of the provider:
  0 is released and destroyed, 2 and 4 are released through it; the same for 1; the loop
  reaches 2, whose last reference goes, and releases 4 through it for the third time.\<close>

definition nestedProviderGone :: Heap where
  "nestedProviderGone =
     release 4 (release 2
       (release 4 (release 2 (release 1
         (release 4 (release 2 (release 0 nestedStarted)))))))"

definition nestedDestroyed :: Heap where
  "nestedDestroyed = release 3 nestedProviderGone"

section \<open>The index of declared dependencies\<close>

lemma fold_addUiReference:
  "fold addUiReference us m i =
     (if (\<exists>u\<in>set us. interfaceName u = i) \<or> m i \<noteq> None then
        Some \<lparr>unqualified = ((case m i of None \<Rightarrow> False | Some e \<Rightarrow> unqualified e) \<or>
                 (\<exists>u\<in>set us. interfaceName u = i \<and> qualifier u = None)),
              qualifiers = (case m i of None \<Rightarrow> {} | Some e \<Rightarrow> qualifiers e) \<union>
                 {q. \<exists>u\<in>set us. interfaceName u = i \<and> qualifier u = Some q}\<rparr>
      else None)"
proof (induction us arbitrary: m)
  case Nil
  then show ?case by (auto split: option.splits)
next
  case (Cons u us)
  show ?case
    apply (simp only: fold_simps Cons.IH)
    apply (cases "qualifier u"; cases "m (interfaceName u)")
    apply (auto simp: addUiReference_def Let_def split: option.splits)
    done
qed

lemma entry_declares:
  "(case fold addUiReference (uiReferences p) Map.empty (interfaceName spec) of
      None \<Rightarrow> False
    | Some interfaceEntry \<Rightarrow>
        (case qualifier spec of
           None \<Rightarrow> unqualified interfaceEntry
         | Some q \<Rightarrow> q \<in> qualifiers interfaceEntry)) = declares p spec"
  apply (subst fold_addUiReference)
  apply (cases "qualifier spec")
   apply (auto simp: declares_def)
  done

lemma addPackageEntry_apply:
  "addPackageEntry pkg index k =
     (if k = name pkg then Some (fold addUiReference (uiReferences pkg) Map.empty) else index k)"
  by (simp add: addPackageEntry_def)

lemma index_fold_absent:
  "pn \<notin> name ` set packages \<Longrightarrow> fold addPackageEntry packages m pn = m pn"
  by (induction packages arbitrary: m) (auto simp: addPackageEntry_apply)

lemma index_fold_present:
  "distinct (map name packages) \<Longrightarrow> p \<in> set packages \<Longrightarrow>
   fold addPackageEntry packages m (name p) =
     Some (fold addUiReference (uiReferences p) Map.empty)"
proof (induction packages arbitrary: m)
  case Nil
  then show ?case by simp
next
  case (Cons q qs)
  show ?case
  proof (cases "p = q")
    case True
    with Cons.prems have "name p \<notin> name ` set qs" by auto
    then have "fold addPackageEntry qs (addPackageEntry q m) (name p) = addPackageEntry q m (name p)"
      by (rule index_fold_absent)
    also have "\<dots> = Some (fold addUiReference (uiReferences p) Map.empty)"
      unfolding True by (subst addPackageEntry_apply) simp
    finally show ?thesis by simp
  next
    case False
    with Cons.prems have "distinct (map name qs)" "p \<in> set qs" by auto
    then show ?thesis by (simp add: Cons.IH)
  qed
qed

lemma unique_name:
  assumes "distinct (map name packages)" and "p \<in> set packages" and "q \<in> set packages"
    and "name q = name p"
  shows "q = p"
proof -
  from assms(1) have "inj_on name (set packages)" by (simp add: distinct_map)
  from inj_onD[OF this assms(4) assms(3) assms(2)] show ?thesis .
qed

lemma isDeclared_absent:
  assumes "declaredDependencies L pn = None"
  shows "\<not> isDeclaredDependency L pn spec"
  unfolding isDeclaredDependency_def assms by simp

lemma isDeclared_present:
  assumes "declaredDependencies L pn = Some (fold addUiReference (uiReferences p) Map.empty)"
  shows "isDeclaredDependency L pn spec = declares p spec"
  unfolding isDeclaredDependency_def assms option.case by (rule entry_declares)

lemma isDeclared_iff:
  assumes "distinct (map name packages)"
    and "declaredDependencies L = buildDependencyIndex packages"
  shows "isDeclaredDependency L pn spec
     \<longleftrightarrow> (\<exists>p\<in>set packages. name p = pn \<and> declares p spec)"
proof (cases "pn \<in> name ` set packages")
  case False
  then have "declaredDependencies L pn = None"
    unfolding assms(2) buildDependencyIndex_def by (simp add: index_fold_absent)
  then have "\<not> isDeclaredDependency L pn spec" by (rule isDeclared_absent)
  moreover have "\<not> (\<exists>p\<in>set packages. name p = pn \<and> declares p spec)"
  proof
    assume "\<exists>p\<in>set packages. name p = pn \<and> declares p spec"
    then obtain p where "p \<in> set packages" "name p = pn" by (elim bexE conjE)
    then have "pn \<in> name ` set packages" by (intro image_eqI[of _ _ p]) simp_all
    with False show False by (rule notE)
  qed
  ultimately show ?thesis by (simp only:)
next
  case True
  then obtain p where p: "p \<in> set packages" "name p = pn" by (auto simp: image_iff)
  have uniq: "q = p" if "q \<in> set packages" "name q = pn" for q
    using unique_name[OF assms(1) p(1) that(1)] that(2) p(2) by simp
  have "declaredDependencies L pn = Some (fold addUiReference (uiReferences p) Map.empty)"
    unfolding assms(2) buildDependencyIndex_def p(2)[symmetric] using assms(1) p(1)
    by (rule index_fold_present)
  then have "isDeclaredDependency L pn spec = declares p spec"
    by (rule isDeclared_present)
  moreover have "(\<exists>q\<in>set packages. name q = pn \<and> declares q spec) = declares p spec"
  proof
    assume "\<exists>q\<in>set packages. name q = pn \<and> declares q spec"
    then obtain q where "q \<in> set packages" "name q = pn" "declares q spec" by (elim bexE conjE)
    with uniq[of q] show "declares p spec" by simp
  next
    assume "declares p spec"
    with p show "\<exists>q\<in>set packages. name q = pn \<and> declares q spec" by (intro bexI[of _ p] conjI)
  qed
  ultimately show ?thesis by (simp only:)
qed

section \<open>Recursive construction\<close>

lemmas repr_defs = updService_def getInstanceOrThrow_def addRef_def removeRef_def
  beforeCreate_def create_def destroy_repr_def Let_def

lemma frame_refl: "frame h h"
  by (simp add: frame_def)

lemma frame_trans: "frame a b \<Longrightarrow> frame b c \<Longrightarrow> frame a c"
  by (simp add: frame_def)

lemma createDependencies_rel:
  assumes step: "\<And>t h r h'. recur t h = Some (r, h') \<Longrightarrow> R h h'"
    and refl: "\<And>h. R h h"
    and trans: "\<And>a b c. R a b \<Longrightarrow> R b c \<Longrightarrow> R a c"
    and run: "createDependencies recur lk ds m h = Some (res, h')"
  shows "R h h'"
  using run
proof (induction ds arbitrary: m h)
  case Nil
  then show ?case by (simp add: refl)
next
  case (Cons d ds)
  show ?case
  proof (cases "mustGet lk (specOf d)")
    case (Inl e)
    with Cons.prems show ?thesis by (simp add: refl)
  next
    case (Inr t)
    show ?thesis
    proof (cases "recur t h")
      case None
      with Inr Cons.prems show ?thesis by simp
    next
      case (Some p)
      obtain r h1 where p: "p = (r, h1)" by (cases p)
      from Some p have R1: "R h h1" by (auto intro: step)
      show ?thesis
      proof (cases r)
        case (Inl e)
        with Inr Some p Cons.prems have "h' = h1" by simp
        with R1 show ?thesis by simp
      next
        case r: (Inr i)
        with Inr Some p Cons.prems
        have "createDependencies recur lk ds (m(referenceName d \<mapsto> i)) h1 = Some (res, h')"
          by simp
        from Cons.IH[OF this] R1 show ?thesis by (rule trans[rotated])
      qed
    qed
  qed
qed

lemma createService_frame:
  "createService fuel lk s h = Some (res, h') \<Longrightarrow> frame h h'"
proof (induction fuel arbitrary: s h res h')
  case 0
  then show ?case by simp
next
  case (Suc fuel)
  show ?case
  proof (cases "state (services h s) = NotConstructed")
    case False
    with Suc.prems show ?thesis
      by (auto simp: frame_def repr_defs split: if_splits option.splits)
  next
    case True
    define h1 where "h1 = beforeCreate s h"
    have f1: "frame h h1" using True by (simp add: frame_def h1_def repr_defs)
    from Suc.prems True obtain r2 h2 where
      run: "createDependencies (createService fuel lk) lk (dependencies (services h1 s)) Map.empty h1
              = Some (r2, h2)"
      by (auto simp: h1_def Let_def split: option.splits)
    have f2: "frame h1 h2"
      using Suc.IH frame_refl frame_trans run by (rule createDependencies_rel)
    with f1 have f02: "frame h h2" by (rule frame_trans)
    show ?thesis
    proof (cases r2)
      case (Inl e)
      with Suc.prems True run have "h' = h2" by (simp add: h1_def Let_def)
      with f02 show ?thesis by simp
    next
      case (Inr refs)
      with Suc.prems True run have "h' = snd (create s refs h2)"
        by (simp add: h1_def Let_def split: prod.splits)
      then show ?thesis using f02 True by (auto simp: frame_def repr_defs)
    qed
  qed
qed


lemma createService_Suc_cases [consumes 1, case_names shared noinstance cycle invalid failed created]:
  assumes "createService (Suc fuel) lk s h = Some (res, h')"
  obtains
    (shared) i where "state (services h s) = Constructed"
      and "serviceInstance (services h s) = Some i" and "res = Inr i" and "h' = addRef s h"
  | (noinstance) "state (services h s) = Constructed"
      and "serviceInstance (services h s) = None"
      and "res = Inl (Error INTERNAL InstanceExpected)" and "h' = h"
  | (cycle) "state (services h s) = Constructing"
      and "res = Inl (Error INTERNAL CycleDuringConstruction)" and "h' = h"
  | (invalid) "state (services h s) = Destroyed"
      and "res = Inl (Error INTERNAL InvalidServiceState)" and "h' = h"
  | (failed) e where "state (services h s) = NotConstructed"
      and "createDependencies (createService fuel lk) lk (dependencies (services h s)) Map.empty
             (beforeCreate s h) = Some (Inl e, h')"
      and "res = Inl e"
  | (created) refs h2 where "state (services h s) = NotConstructed"
      and "createDependencies (createService fuel lk) lk (dependencies (services h s)) Map.empty
             (beforeCreate s h) = Some (Inr refs, h2)"
      and "res = Inr (nextInstance h2)" and "h' = snd (create s refs h2)"
proof (cases "state (services h s)")
  case NotConstructed
  have deps: "dependencies (services (beforeCreate s h) s) = dependencies (services h s)"
    by (simp add: repr_defs)
  from assms NotConstructed obtain r2 h2 where
    run: "createDependencies (createService fuel lk) lk (dependencies (services h s)) Map.empty
             (beforeCreate s h) = Some (r2, h2)"
    by (auto simp: Let_def deps split: option.splits)
  show ?thesis
  proof (cases r2)
    case (Inl e)
    with assms NotConstructed run deps have "res = Inl e" "h' = h2" by (simp_all add: Let_def)
    with NotConstructed run Inl show ?thesis by (intro failed) simp_all
  next
    case (Inr refs)
    with assms NotConstructed run deps
    have "res = Inr (nextInstance h2)" "h' = snd (create s refs h2)"
      by (simp_all add: Let_def create_def)
    with NotConstructed run Inr show ?thesis by (intro created) simp_all
  qed
next
  case Constructing
  with assms show ?thesis by (intro cycle) simp_all
next
  case Constructed
  show ?thesis
  proof (cases "serviceInstance (services h s)")
    case None
    with assms Constructed show ?thesis by (intro noinstance) (simp_all add: getInstanceOrThrow_def)
  next
    case (Some i)
    with assms Constructed show ?thesis by (intro shared[of i]) (simp_all add: getInstanceOrThrow_def)
  qed
next
  case Destroyed
  with assms show ?thesis by (intro invalid) simp_all
qed

lemma createService_success:
  assumes "createService fuel lk s h = Some (Inr i, h')"
  shows "state (services h' s) = Constructed \<and> serviceInstance (services h' s) = Some i"
proof (cases fuel)
  case 0
  with assms show ?thesis by simp
next
  case (Suc n)
  from assms[unfolded Suc] show ?thesis
    by (cases rule: createService_Suc_cases) (simp_all add: repr_defs)
qed

text \<open>After the loop has come back without an exception, every dependency in the list is
  resolved and its provider is constructed.\<close>

lemma createDependencies_constructed:
  assumes succ: "\<And>t h i h'. recur t h = Some (Inr i, h') \<Longrightarrow> state (services h' t) = Constructed"
    and fr: "\<And>t h r h'. recur t h = Some (r, h') \<Longrightarrow> frame h h'"
    and run: "createDependencies recur lk ds m h = Some (Inr refs, h')"
  shows "\<forall>d\<in>set ds. \<exists>t. lk (specOf d) = Found t \<and> state (services h' t) = Constructed"
  using run
proof (induction ds arbitrary: m h)
  case Nil
  then show ?case by simp
next
  case (Cons d ds)
  from Cons.prems obtain t where t: "mustGet lk (specOf d) = Inr t"
    by (cases "mustGet lk (specOf d)") simp_all
  then have lk: "lk (specOf d) = Found t"
    by (simp add: mustGet_def split: ServiceLookupResult.splits)
  from Cons.prems t obtain i h1 where rec: "recur t h = Some (Inr i, h1)"
    and rest: "createDependencies recur lk ds (m(referenceName d \<mapsto> i)) h1 = Some (Inr refs, h')"
    by (auto split: option.splits sum.splits)
  from succ[OF rec] have "state (services h1 t) = Constructed" .
  moreover have "frame h1 h'"
    using fr frame_refl frame_trans rest by (rule createDependencies_rel)
  ultimately have "state (services h' t) = Constructed" by (simp add: frame_def)
  with lk Cons.IH[OF rest] show ?case by simp
qed

text \<open>After the loop has come back without an exception, the references it has collected
  hold the instances of the providers; a later dependency of the same reference name
  overrides an earlier one.\<close>

lemma createDependencies_references:
  assumes succ: "\<And>t h i h'. recur t h = Some (Inr i, h') \<Longrightarrow>
        state (services h' t) = Constructed \<and> serviceInstance (services h' t) = Some i"
    and fr: "\<And>t h r h'. recur t h = Some (r, h') \<Longrightarrow> frame h h'"
    and run: "createDependencies recur lk ds m h = Some (Inr refs, h')"
  shows "referencesResolved lk ds refs h' \<and> (\<forall>n. n \<notin> referenceName ` set ds \<longrightarrow> refs n = m n)"
  using run
proof (induction ds arbitrary: m h)
  case Nil
  then show ?case by (simp add: referencesResolved_def)
next
  case (Cons d ds)
  from Cons.prems obtain t where t: "mustGet lk (specOf d) = Inr t"
    by (cases "mustGet lk (specOf d)") simp_all
  then have lk: "lk (specOf d) = Found t"
    by (simp add: mustGet_def split: ServiceLookupResult.splits)
  from Cons.prems t obtain i h1 where rec: "recur t h = Some (Inr i, h1)"
    and rest: "createDependencies recur lk ds (m(referenceName d \<mapsto> i)) h1 = Some (Inr refs, h')"
    by (auto split: option.splits sum.splits)
  from Cons.IH[OF rest] have IH1: "referencesResolved lk ds refs h'"
    and IH2: "\<forall>n. n \<notin> referenceName ` set ds \<longrightarrow> refs n = (m(referenceName d \<mapsto> i)) n"
    by simp_all
  have "frame h1 h'"
    using fr frame_refl frame_trans rest by (rule createDependencies_rel)
  with succ[OF rec] have inst: "serviceInstance (services h' t) = Some i"
    by (simp add: frame_def)
  have "referencesResolved lk (d # ds) refs h'"
    unfolding referencesResolved_def
  proof
    fix x assume x: "x \<in> set (d # ds)"
    show "\<exists>d'\<in>set (d # ds). referenceName d' = referenceName x \<and>
        (\<exists>t. lk (specOf d') = Found t \<and> refs (referenceName x) = serviceInstance (services h' t))"
    proof (cases "referenceName x \<in> referenceName ` set ds")
      case True
      then obtain y where y: "y \<in> set ds" "referenceName y = referenceName x" by auto
      from IH1 y(1) obtain d' where "d' \<in> set ds" "referenceName d' = referenceName y"
        "\<exists>t. lk (specOf d') = Found t \<and> refs (referenceName y) = serviceInstance (services h' t)"
        unfolding referencesResolved_def by blast
      with y(2) show ?thesis by auto
    next
      case False
      with x have xd: "referenceName x = referenceName d" by auto
      from False IH2 have "refs (referenceName x) = (m(referenceName d \<mapsto> i)) (referenceName x)"
        by blast
      with xd inst have "refs (referenceName x) = serviceInstance (services h' t)" by simp
      with lk xd show ?thesis by (intro bexI[of _ d]) auto
    qed
  qed
  moreover have "\<forall>n. n \<notin> referenceName ` set (d # ds) \<longrightarrow> refs n = m n"
    using IH2 by auto
  ultimately show ?case by simp
qed

text \<open>An induction principle for heap relations: a reflexive and transitive relation that
  holds of the three methods, each called in the state in which the layer calls it, holds
  of a whole recursive construction.\<close>

lemma createService_rel:
  assumes refl: "\<And>h. R h h"
    and trans: "\<And>a b c. R a b \<Longrightarrow> R b c \<Longrightarrow> R a c"
    and addRef: "\<And>h s. state (services h s) = Constructed \<Longrightarrow> R h (addRef s h)"
    and beforeCreate: "\<And>h s. state (services h s) = NotConstructed \<Longrightarrow> R h (beforeCreate s h)"
    and create: "\<And>h s refs. state (services h s) = Constructing \<Longrightarrow>
        (\<forall>d\<in>set (dependencies (services h s)).
            \<exists>t. lk (specOf d) = Found t \<and> state (services h t) = Constructed) \<Longrightarrow>
        referencesResolved lk (dependencies (services h s)) refs h \<Longrightarrow>
        R h (snd (create s refs h))"
    and run: "createService fuel lk s h = Some (res, h')"
  shows "R h h'"
  using run
proof (induction fuel arbitrary: s h res h')
  case 0
  then show ?case by simp
next
  case (Suc fuel)
  from Suc.prems show ?case
  proof (cases rule: createService_Suc_cases)
    case (shared i)
    then show ?thesis by (simp add: addRef)
  next
    case noinstance
    then show ?thesis by (simp add: refl)
  next
    case cycle
    then show ?thesis by (simp add: refl)
  next
    case invalid
    then show ?thesis by (simp add: refl)
  next
    case (failed e)
    have "R (Spec2Isabelle.beforeCreate s h) h'"
      using Suc.IH refl trans failed(2) by (rule createDependencies_rel)
    with beforeCreate[OF failed(1)] show ?thesis by (rule trans)
  next
    case (created refs h2)
    let ?h1 = "Spec2Isabelle.beforeCreate s h"
    have R12: "R ?h1 h2"
      using Suc.IH refl trans created(2) by (rule createDependencies_rel)
    have f12: "frame ?h1 h2"
      using createService_frame frame_refl frame_trans created(2) by (rule createDependencies_rel)
    have "state (services ?h1 s) = Constructing" 
      and d1: "dependencies (services ?h1 s) = dependencies (services h s)" by (simp_all add: repr_defs)
    with f12 have st: "state (services h2 s) = Constructing"
      and deps: "dependencies (services h2 s) = dependencies (services h s)"
      by (simp_all add: frame_def)
    have "\<forall>d\<in>set (dependencies (services h s)).
            \<exists>t. lk (specOf d) = Found t \<and> state (services h2 t) = Constructed"
      using created(2)
      by (rule createDependencies_constructed[rotated 2])
         (auto dest: createService_success createService_frame)
    moreover have "referencesResolved lk (dependencies (services h s)) refs h2"
      using created(2)
      by (rule createDependencies_references[rotated 2, THEN conjunct1])
         (auto dest: createService_success createService_frame)
    ultimately have "R h2 (snd (Spec2Isabelle.create s refs h2))"
      using deps by (intro create st) simp_all
    with beforeCreate[OF created(1)] R12 created(4) show ?thesis by (blast intro: trans)
  qed
qed

lemma createAll_rel:
  assumes step: "\<And>t h r h'. recur t h = Some (r, h') \<Longrightarrow> R h h'"
    and refl: "\<And>h. R h h"
    and trans: "\<And>a b c. R a b \<Longrightarrow> R b c \<Longrightarrow> R a c"
    and run: "createAll recur ss h = Some (res, h')"
  shows "R h h'"
  using run
proof (induction ss arbitrary: h)
  case Nil
  then show ?case by (simp add: refl)
next
  case (Cons s ss)
  then obtain r h1 where rec: "recur s h = Some (r, h1)"
    by (cases "recur s h") auto
  then have R1: "R h h1" by (rule step)
  show ?case
  proof (cases r)
    case (Inl e)
    with rec Cons.prems have "h' = h1" by simp
    with R1 show ?thesis by simp
  next
    case (Inr i)
    with rec Cons.prems have "createAll recur ss h1 = Some (res, h')" by simp
    from Cons.IH[OF this] R1 show ?thesis by (rule trans[rotated])
  qed
qed


lemma createAll_constructed:
  assumes succ: "\<And>t h i h'. recur t h = Some (Inr i, h') \<Longrightarrow> state (services h' t) = Constructed"
    and fr: "\<And>t h r h'. recur t h = Some (r, h') \<Longrightarrow> frame h h'"
    and run: "createAll recur ss h = Some (Inr u, h')"
  shows "\<forall>s\<in>set ss. state (services h' s) = Constructed"
  using run
proof (induction ss arbitrary: h)
  case Nil
  then show ?case by simp
next
  case (Cons s ss)
  then obtain i h1 where rec: "recur s h = Some (Inr i, h1)"
    and rest: "createAll recur ss h1 = Some (Inr u, h')"
    by (auto split: option.splits sum.splits)
  from succ[OF rec] have "state (services h1 s) = Constructed" .
  moreover have "frame h1 h'"
    using fr frame_refl frame_trans rest by (rule createAll_rel)
  ultimately have "state (services h' s) = Constructed" by (simp add: frame_def)
  with Cons.IH[OF rest] show ?case by simp
qed

lemma start_cases [consumes 1, case_names guard failed started]:
  assumes "start fuel L h = Some (res, L', h')"
  obtains
    (guard) "layerState L \<noteq> NotStarted" and "res = Inl (Error INTERNAL AlreadyStarted)"
      and "L' = L" and "h' = h"
  | (failed) e where "layerState L = NotStarted"
      and "createAll (createService fuel (serviceLookup L)) (allServices L) h = Some (Inl e, h')"
      and "res = Inl e" and "L' = L"
  | (started) "layerState L = NotStarted"
      and "createAll (createService fuel (serviceLookup L)) (allServices L) h = Some (Inr (), h')"
      and "res = Inr ()" and "L' = L\<lparr>layerState := Started\<rparr>"
proof (cases "layerState L = NotStarted")
  case False
  with assms show ?thesis by (intro guard) (simp_all add: start_def)
next
  case True
  with assms obtain r h1 where
    run: "createAll (createService fuel (serviceLookup L)) (allServices L) h = Some (r, h1)"
    by (auto simp: start_def split: option.splits)
  show ?thesis
  proof (cases r)
    case (Inl e)
    with assms True run show ?thesis by (intro failed[of e]) (simp_all add: start_def)
  next
    case (Inr u)
    with assms True run show ?thesis by (intro started) (simp_all add: start_def)
  qed
qed

lemma start_rel:
  assumes refl: "\<And>h. R h h"
    and trans: "\<And>a b c. R a b \<Longrightarrow> R b c \<Longrightarrow> R a c"
    and addRef: "\<And>h s. state (services h s) = Constructed \<Longrightarrow> R h (addRef s h)"
    and beforeCreate: "\<And>h s. state (services h s) = NotConstructed \<Longrightarrow> R h (beforeCreate s h)"
    and create: "\<And>h s refs. state (services h s) = Constructing \<Longrightarrow>
        (\<forall>d\<in>set (dependencies (services h s)).
            \<exists>t. serviceLookup L (specOf d) = Found t \<and> state (services h t) = Constructed) \<Longrightarrow>
        referencesResolved (serviceLookup L) (dependencies (services h s)) refs h \<Longrightarrow>
        R h (snd (create s refs h))"
    and run: "start fuel L h = Some (res, L', h')"
  shows "R h h'"
proof -
  have step: "\<And>t h r h'. createService fuel (serviceLookup L) t h = Some (r, h') \<Longrightarrow> R h h'"
    using refl trans addRef beforeCreate create by (rule createService_rel)
  from run show ?thesis
  proof (cases rule: start_cases)
    case guard
    then show ?thesis by (simp add: refl)
  next
    case (failed e)
    show ?thesis using step refl trans failed(2) by (rule createAll_rel)
  next
    case started
    show ?thesis using step refl trans started(2) by (rule createAll_rel)
  qed
qed

lemma constructorRuns_refl: "constructorRuns lk h h"
  by (simp add: constructorRuns_def)

lemma constructorRuns_trans:
  assumes "constructorRuns lk a b" and "constructorRuns lk b c"
  shows "constructorRuns lk a c"
proof -
  from assms(1) obtain n1 where 1: "calls b = n1 @ calls a"
    "\<forall>c\<in>set n1. dependenciesConstructed lk c"
    "\<forall>s. state (services b s) = Constructed \<longrightarrow> state (services a s) = Constructed \<or>
         (\<exists>references i snapshot. ConstructorCall s references i snapshot \<in> set n1)"
    unfolding constructorRuns_def by blast
  from assms(2) obtain n2 where 2: "calls c = n2 @ calls b"
    "\<forall>c\<in>set n2. dependenciesConstructed lk c"
    "\<forall>s. state (services c s) = Constructed \<longrightarrow> state (services b s) = Constructed \<or>
         (\<exists>references i snapshot. ConstructorCall s references i snapshot \<in> set n2)"
    unfolding constructorRuns_def by blast
  have "calls c = (n2 @ n1) @ calls a" using 1(1) 2(1) by simp
  moreover have "\<forall>c\<in>set (n2 @ n1). dependenciesConstructed lk c" using 1(2) 2(2) by auto
  moreover have "\<forall>s. state (services c s) = Constructed \<longrightarrow> state (services a s) = Constructed \<or>
         (\<exists>references i snapshot. ConstructorCall s references i snapshot \<in> set (n2 @ n1))"
    using 1(3) 2(3) by (metis Un_iff set_append)
  ultimately show ?thesis unfolding constructorRuns_def by blast
qed

lemma constructorRuns_create:
  assumes "state (services h s) = Constructing"
    and "\<forall>d\<in>set (dependencies (services h s)).
            \<exists>t. lk (specOf d) = Found t \<and> state (services h t) = Constructed"
  shows "constructorRuns lk h (snd (create s refs h))"
proof -
  let ?c = "ConstructorCall s refs (nextInstance h) (services h)"
  have "calls (snd (create s refs h)) = [?c] @ calls h" by (simp add: repr_defs)
  moreover have "dependenciesConstructed lk ?c"
    using assms by (auto simp: dependenciesConstructed_def)
  moreover have "\<forall>r. state (services (snd (create s refs h)) r) = Constructed \<longrightarrow>
      state (services h r) = Constructed \<or>
      (\<exists>references i snapshot. ConstructorCall r references i snapshot \<in> set [?c])"
    by (simp add: repr_defs)
  ultimately show ?thesis unfolding constructorRuns_def
    by (intro exI[of _ "[?c]"] conjI) simp_all
qed

section \<open>Construction comes back\<close>

lemma frame_pending:
  assumes "frame h h'" and "finite A"
  shows "pending A h' \<le> pending A h"
  unfolding pending_def
proof (rule card_mono)
  show "finite {r \<in> A. state (services h r) = NotConstructed}" using assms(2) by simp
  show "{r \<in> A. state (services h' r) = NotConstructed} \<subseteq> {r \<in> A. state (services h r) = NotConstructed}"
    using assms(1) by (auto simp: frame_def)
qed

lemma beforeCreate_pending:
  assumes "finite A" and "s \<in> A" and "state (services h s) = NotConstructed"
  shows "pending A (beforeCreate s h) < pending A h"
  unfolding pending_def
proof (rule psubset_card_mono)
  show "finite {r \<in> A. state (services h r) = NotConstructed}" using assms(1) by simp
  show "{r \<in> A. state (services (beforeCreate s h) r) = NotConstructed}
          \<subset> {r \<in> A. state (services h r) = NotConstructed}"
    using assms(2,3) by (auto simp: repr_defs split: if_splits)
qed

lemma createDependencies_total:
  assumes rec: "\<And>t h. t \<in> A \<Longrightarrow> pending A h < n \<Longrightarrow> \<exists>r h'. recur t h = Some (r, h')"
    and fr: "\<And>t h r h'. recur t h = Some (r, h') \<Longrightarrow> frame h h'"
    and cl: "\<And>spec t. lk spec = Found t \<Longrightarrow> t \<in> A"
    and fin: "finite A"
    and le: "pending A h < n"
  shows "\<exists>r h'. createDependencies recur lk ds m h = Some (r, h')"
  using le
proof (induction ds arbitrary: m h)
  case Nil
  then show ?case by simp
next
  case (Cons d ds)
  show ?case
  proof (cases "mustGet lk (specOf d)")
    case (Inl e)
    then show ?thesis by simp
  next
    case (Inr t)
    then have "lk (specOf d) = Found t"
      by (simp add: mustGet_def split: ServiceLookupResult.splits)
    then have "t \<in> A" by (rule cl)
    from rec[OF this Cons.prems] obtain r h1 where r: "recur t h = Some (r, h1)" by blast
    from fr[OF r] fin have "pending A h1 \<le> pending A h" by (rule frame_pending)
    with Cons.prems have "pending A h1 < n" by simp
    from Cons.IH[OF this] r Inr show ?thesis by (cases r) simp_all
  qed
qed

lemma createService_total:
  assumes cl: "\<And>spec t. lk spec = Found t \<Longrightarrow> t \<in> A"
    and fin: "finite A"
  shows "s \<in> A \<Longrightarrow> pending A h < fuel \<Longrightarrow> \<exists>r h'. createService fuel lk s h = Some (r, h')"
proof (induction fuel arbitrary: s h)
  case 0
  then show ?case by simp
next
  case (Suc fuel)
  show ?case
  proof (cases "state (services h s) = NotConstructed")
    case False
    then show ?thesis by (auto split: sum.splits)
  next
    case True
    let ?h1 = "beforeCreate s h"
    from fin Suc.prems(1) True have "pending A ?h1 < pending A h" by (rule beforeCreate_pending)
    with Suc.prems(2) have "pending A ?h1 < fuel" by simp
    with Suc.IH createService_frame cl fin
    have "\<exists>r h'. createDependencies (createService fuel lk) lk (dependencies (services ?h1 s))
             Map.empty ?h1 = Some (r, h')"
      by (rule createDependencies_total)
    then obtain r h2 where "createDependencies (createService fuel lk) lk
        (dependencies (services ?h1 s)) Map.empty ?h1 = Some (r, h2)" by blast
    with True show ?thesis by (cases r) (simp_all add: Let_def split: prod.splits)
  qed
qed

lemma createAll_total:
  assumes rec: "\<And>t h. t \<in> A \<Longrightarrow> pending A h < n \<Longrightarrow> \<exists>r h'. recur t h = Some (r, h')"
    and fr: "\<And>t h r h'. recur t h = Some (r, h') \<Longrightarrow> frame h h'"
    and fin: "finite A"
  shows "set ss \<subseteq> A \<Longrightarrow> pending A h < n \<Longrightarrow> \<exists>r h'. createAll recur ss h = Some (r, h')"
proof (induction ss arbitrary: h)
  case Nil
  then show ?case by simp
next
  case (Cons s ss)
  then have "s \<in> A" by simp
  from rec[OF this Cons.prems(2)] obtain r h1 where r: "recur s h = Some (r, h1)" by blast
  from fr[OF r] fin have "pending A h1 \<le> pending A h" by (rule frame_pending)
  with Cons.prems have "set ss \<subseteq> A" "pending A h1 < n" by simp_all
  from Cons.IH[OF this] r show ?case by (cases r) simp_all
qed

lemma pending_le_length: "pending (set ss) h \<le> length ss"
proof -
  have "pending (set ss) h \<le> card (set ss)"
    unfolding pending_def by (rule card_mono) auto
  also have "\<dots> \<le> length ss" by (rule card_length)
  finally show ?thesis .
qed

lemma start_total:
  assumes "lookupClosed L" and "length (allServices L) < fuel"
  shows "\<exists>res L' h'. start fuel L h = Some (res, L', h')"
proof (cases "layerState L = NotStarted")
  case False
  then show ?thesis by (simp add: start_def)
next
  case True
  let ?A = "set (allServices L)"
  have cl: "\<And>spec t. serviceLookup L spec = Found t \<Longrightarrow> t \<in> ?A"
    using assms(1) by (simp add: lookupClosed_def)
  have le: "pending ?A h < fuel"
    using pending_le_length[of "allServices L" h] assms(2) by simp
  have "\<exists>r h'. createAll (createService fuel (serviceLookup L)) (allServices L) h = Some (r, h')"
  proof (rule createAll_total[where A = ?A and n = fuel])
    show "\<And>t h. t \<in> ?A \<Longrightarrow> pending ?A h < fuel \<Longrightarrow>
        \<exists>r h'. createService fuel (serviceLookup L) t h = Some (r, h')"
      using cl by (rule createService_total) simp_all
    show "\<And>t h r h'. createService fuel (serviceLookup L) t h = Some (r, h') \<Longrightarrow> frame h h'"
      by (rule createService_frame)
  qed (simp_all add: le)
  then obtain r h1 where
    "createAll (createService fuel (serviceLookup L)) (allServices L) h = Some (r, h1)" by blast
  with True show ?thesis by (cases r) (simp_all add: start_def)
qed

section \<open>Well-formed heaps\<close>

lemma addRef_fields:
  "state (services (addRef s h) r) = state (services h r)"
  "dependencies (services (addRef s h) r) = dependencies (services h r)"
  "serviceInstance (services (addRef s h) r) = serviceInstance (services h r)"
  "useCount (services (addRef s h) r) = (if r = s then useCount (services h r) + 1 else useCount (services h r))"
  "nextInstance (addRef s h) = nextInstance h"
  "calls (addRef s h) = calls h"
  by (simp_all add: repr_defs)

lemma beforeCreate_fields:
  "state (services (beforeCreate s h) r) = (if r = s then Constructing else state (services h r))"
  "dependencies (services (beforeCreate s h) r) = dependencies (services h r)"
  "serviceInstance (services (beforeCreate s h) r) = serviceInstance (services h r)"
  "useCount (services (beforeCreate s h) r) = useCount (services h r)"
  "nextInstance (beforeCreate s h) = nextInstance h"
  "calls (beforeCreate s h) = calls h"
  by (simp_all add: repr_defs)

lemma create_fields:
  "state (services (snd (create s refs h)) r) = (if r = s then Constructed else state (services h r))"
  "dependencies (services (snd (create s refs h)) r) = dependencies (services h r)"
  "serviceInstance (services (snd (create s refs h)) r) =
     (if r = s then Some (nextInstance h) else serviceInstance (services h r))"
  "useCount (services (snd (create s refs h)) r) = (if r = s then 1 else useCount (services h r))"
  "nextInstance (snd (create s refs h)) = Suc (nextInstance h)"
  "calls (snd (create s refs h)) = ConstructorCall s refs (nextInstance h) (services h) # calls h"
  "fst (create s refs h) = nextInstance h"
  by (simp_all add: repr_defs)

lemma wellFormed_addRef:
  assumes "wellFormed lk h" and "state (services h s) = Constructed"
  shows "wellFormed lk (addRef s h)"
  unfolding wellFormed_def
proof (intro allI conjI impI)
  fix r
  show "state (services (addRef s h) r) \<noteq> Destroyed"
    using assms(1) by (simp add: wellFormed_def addRef_fields)
  assume c: "state (services (addRef s h) r) = Constructed"
  then have c': "state (services h r) = Constructed" by (simp add: addRef_fields)
  with assms(1) have u: "1 \<le> useCount (services h r)" by (simp add: wellFormed_def)
  then show "1 \<le> useCount (services (addRef s h) r)" by (auto simp: addRef_fields)
  from assms(1) c' have "\<exists>i. serviceInstance (services h r) = Some i \<and> i < nextInstance h \<and>
    (\<forall>d\<in>set (dependencies (services h r)).
        \<exists>t j. lk (specOf d) = Found t \<and> state (services h t) = Constructed \<and>
              serviceInstance (services h t) = Some j \<and> j < i)"
    unfolding wellFormed_def by blast
  then show "\<exists>i. serviceInstance (services (addRef s h) r) = Some i \<and> i < nextInstance (addRef s h) \<and>
      (\<forall>d\<in>set (dependencies (services (addRef s h) r)).
         \<exists>t j. lk (specOf d) = Found t \<and> state (services (addRef s h) t) = Constructed \<and>
               serviceInstance (services (addRef s h) t) = Some j \<and> j < i)"
    by (simp only: addRef_fields)
qed

lemma wellFormed_beforeCreate:
  assumes "wellFormed lk h" and "state (services h s) = NotConstructed"
  shows "wellFormed lk (beforeCreate s h)"
  unfolding wellFormed_def
proof (intro allI conjI impI)
  fix r
  show "state (services (beforeCreate s h) r) \<noteq> Destroyed"
    using assms(1) by (simp add: wellFormed_def beforeCreate_fields)
  assume c: "state (services (beforeCreate s h) r) = Constructed"
  then have rs: "r \<noteq> s" and c': "state (services h r) = Constructed"
    by (auto simp: beforeCreate_fields split: if_splits)
  with assms(1) have u: "1 \<le> useCount (services h r)" by (simp add: wellFormed_def)
  with rs show "1 \<le> useCount (services (beforeCreate s h) r)" by (simp add: beforeCreate_fields)
  from assms(1) c' obtain i where i: "serviceInstance (services h r) = Some i" "i < nextInstance h"
    "\<forall>d\<in>set (dependencies (services h r)).
        \<exists>t j. lk (specOf d) = Found t \<and> state (services h t) = Constructed \<and>
              serviceInstance (services h t) = Some j \<and> j < i"
    unfolding wellFormed_def by blast
  have "\<forall>d\<in>set (dependencies (services h r)).
         \<exists>t j. lk (specOf d) = Found t \<and> state (services (beforeCreate s h) t) = Constructed \<and>
               serviceInstance (services (beforeCreate s h) t) = Some j \<and> j < i"
  proof
    fix d assume "d \<in> set (dependencies (services h r))"
    with i(3) obtain t j where t: "lk (specOf d) = Found t" "state (services h t) = Constructed"
      "serviceInstance (services h t) = Some j" "j < i" by blast
    with assms(2) have "t \<noteq> s" by auto
    with t show "\<exists>t j. lk (specOf d) = Found t \<and> state (services (beforeCreate s h) t) = Constructed \<and>
               serviceInstance (services (beforeCreate s h) t) = Some j \<and> j < i"
      by (intro exI[of _ t] exI[of _ j]) (simp add: beforeCreate_fields)
  qed
  with i(1,2) rs
  show "\<exists>i. serviceInstance (services (beforeCreate s h) r) = Some i \<and>
      i < nextInstance (beforeCreate s h) \<and>
      (\<forall>d\<in>set (dependencies (services (beforeCreate s h) r)).
         \<exists>t j. lk (specOf d) = Found t \<and> state (services (beforeCreate s h) t) = Constructed \<and>
               serviceInstance (services (beforeCreate s h) t) = Some j \<and> j < i)"
    by (intro exI[of _ i]) (simp add: beforeCreate_fields)
qed

lemma wellFormed_create:
  assumes wf: "wellFormed lk h" and st: "state (services h s) = Constructing"
    and deps: "\<forall>d\<in>set (dependencies (services h s)).
            \<exists>t. lk (specOf d) = Found t \<and> state (services h t) = Constructed"
  shows "wellFormed lk (snd (create s refs h))"
  unfolding wellFormed_def
proof (intro allI conjI impI)
  let ?h' = "snd (create s refs h)"
  have sv: "\<And>r. r \<noteq> s \<Longrightarrow> services ?h' r = services h r" by (simp add: repr_defs)
  have ni: "nextInstance ?h' = Suc (nextInstance h)" by (simp add: repr_defs)
  have ss: "state (services ?h' s) = Constructed" "useCount (services ?h' s) = 1"
    "serviceInstance (services ?h' s) = Some (nextInstance h)"
    "dependencies (services ?h' s) = dependencies (services h s)" by (simp_all add: repr_defs)
  fix r
  show "state (services ?h' r) \<noteq> Destroyed"
    using wf sv[of r] ss(1) by (cases "r = s") (simp_all add: wellFormed_def)
  assume c: "state (services ?h' r) = Constructed"
  have old: "\<exists>t j. lk (specOf d) = Found t \<and> state (services ?h' t) = Constructed \<and>
               serviceInstance (services ?h' t) = Some j \<and> j < i"
    if "\<exists>t j. lk (specOf d) = Found t \<and> state (services h t) = Constructed \<and>
               serviceInstance (services h t) = Some j \<and> j < i" for d i
  proof -
    from that obtain t j where t: "lk (specOf d) = Found t" "state (services h t) = Constructed"
      "serviceInstance (services h t) = Some j" "j < i" by blast
    with st have "t \<noteq> s" by auto
    with t sv[of t] show ?thesis by (intro exI[of _ t] exI[of _ j]) simp
  qed
  show "1 \<le> useCount (services ?h' r)"
  proof (cases "r = s")
    case True
    with ss show ?thesis by simp
  next
    case False
    with c sv[of r] wf show ?thesis by (simp add: wellFormed_def)
  qed
  show "\<exists>i. serviceInstance (services ?h' r) = Some i \<and> i < nextInstance ?h' \<and>
      (\<forall>d\<in>set (dependencies (services ?h' r)).
         \<exists>t j. lk (specOf d) = Found t \<and> state (services ?h' t) = Constructed \<and>
               serviceInstance (services ?h' t) = Some j \<and> j < i)"
  proof (cases "r = s")
    case True
    have "\<forall>d\<in>set (dependencies (services h s)).
         \<exists>t j. lk (specOf d) = Found t \<and> state (services ?h' t) = Constructed \<and>
               serviceInstance (services ?h' t) = Some j \<and> j < nextInstance h"
    proof
      fix d assume "d \<in> set (dependencies (services h s))"
      with deps obtain t where t: "lk (specOf d) = Found t" "state (services h t) = Constructed"
        by blast
      with wf obtain j where "serviceInstance (services h t) = Some j" "j < nextInstance h"
        unfolding wellFormed_def by blast
      with t have "\<exists>t j. lk (specOf d) = Found t \<and> state (services h t) = Constructed \<and>
               serviceInstance (services h t) = Some j \<and> j < nextInstance h" by blast
      then show "\<exists>t j. lk (specOf d) = Found t \<and> state (services ?h' t) = Constructed \<and>
               serviceInstance (services ?h' t) = Some j \<and> j < nextInstance h" by (rule old)
    qed
    with True ss ni show ?thesis by (intro exI[of _ "nextInstance h"]) simp
  next
    case False
    with c sv[of r] have c': "state (services h r) = Constructed" by simp
    with wf obtain i where i: "serviceInstance (services h r) = Some i" "i < nextInstance h"
      "\<forall>d\<in>set (dependencies (services h r)).
          \<exists>t j. lk (specOf d) = Found t \<and> state (services h t) = Constructed \<and>
                serviceInstance (services h t) = Some j \<and> j < i"
      unfolding wellFormed_def by blast
    from i(3) have "\<forall>d\<in>set (dependencies (services h r)).
          \<exists>t j. lk (specOf d) = Found t \<and> state (services ?h' t) = Constructed \<and>
                serviceInstance (services ?h' t) = Some j \<and> j < i"
      using old by blast
    with i(1,2) False sv[of r] ni show ?thesis by (intro exI[of _ i]) simp
  qed
qed

lemma createService_wellFormed:
  assumes "createService fuel lk s h = Some (res, h')" and "wellFormed lk h"
  shows "wellFormed lk h'"
proof -
  have "wellFormed lk h \<longrightarrow> wellFormed lk h'"
  proof (rule createService_rel[where R = "\<lambda>a b. wellFormed lk a \<longrightarrow> wellFormed lk b"
        and lk = lk, OF _ _ _ _ _ assms(1)])
  qed (auto intro: wellFormed_addRef wellFormed_beforeCreate wellFormed_create)
  with assms(2) show ?thesis by simp
qed

section \<open>Exceptions of construction\<close>

lemma frame_dependencyGraph:
  "frame h h' \<Longrightarrow> dependencyGraph L h' = dependencyGraph L h"
  by (simp add: frame_def dependencyGraph_def)

lemma wellFormed_edge:
  assumes "wellFormed (serviceLookup L) h" and "(s, t) \<in> dependencyGraph L h"
    and "state (services h s) = Constructed"
  shows "state (services h t) = Constructed \<and>
         (\<exists>i j. serviceInstance (services h s) = Some i \<and> serviceInstance (services h t) = Some j \<and> j < i)"
proof -
  from assms(2) obtain d where d: "d \<in> set (dependencies (services h s))"
    "serviceLookup L (specOf d) = Found t" by (auto simp: dependencyGraph_def)
  from assms(1,3) obtain i where i: "serviceInstance (services h s) = Some i"
    "\<forall>d\<in>set (dependencies (services h s)).
        \<exists>t j. serviceLookup L (specOf d) = Found t \<and> state (services h t) = Constructed \<and>
              serviceInstance (services h t) = Some j \<and> j < i"
    unfolding wellFormed_def by blast
  from i(2) d show ?thesis using i(1) by fastforce
qed

lemma wellFormed_path:
  assumes "wellFormed (serviceLookup L) h" and "(s, t) \<in> (dependencyGraph L h)\<^sup>+"
    and "state (services h s) = Constructed"
  shows "state (services h t) = Constructed \<and>
         (\<exists>i j. serviceInstance (services h s) = Some i \<and> serviceInstance (services h t) = Some j \<and> j < i)"
  using assms(2)
proof (induction rule: trancl_induct)
  case (base t)
  with assms(1,3) show ?case by (intro wellFormed_edge)
next
  case (step t u)
  from wellFormed_edge[OF assms(1) step.hyps(2)] step.IH show ?case by fastforce
qed

text \<open>A service on a dependency cycle is never constructed.\<close>

lemma wellFormed_cycle:
  assumes "wellFormed (serviceLookup L) h" and "(c, c) \<in> (dependencyGraph L h)\<^sup>+"
  shows "state (services h c) \<noteq> Constructed"
proof
  assume "state (services h c) = Constructed"
  from wellFormed_path[OF assms this] show False by auto
qed

lemma createDependencies_error:
  assumes rec: "\<And>t h e h'. T t \<Longrightarrow> P h \<Longrightarrow> recur t h = Some (Inl e, h') \<Longrightarrow> Q e"
    and pres: "\<And>t h i h'. T t \<Longrightarrow> P h \<Longrightarrow> recur t h = Some (Inr i, h') \<Longrightarrow> P h'"
    and ok: "\<And>d. d \<in> set ds \<Longrightarrow> \<exists>t. lk (specOf d) = Found t \<and> T t"
    and P: "P h"
    and run: "createDependencies recur lk ds m h = Some (Inl e, h')"
  shows "Q e"
  using ok P run
proof (induction ds arbitrary: m h)
  case Nil
  then show ?case by simp
next
  case (Cons d ds)
  from Cons.prems(1)[of d] obtain t where t: "lk (specOf d) = Found t" "T t" by auto
  then have mg: "mustGet lk (specOf d) = Inr t" by (simp add: mustGet_def)
  with Cons.prems(3) obtain r h1 where r: "recur t h = Some (r, h1)"
    by (cases "recur t h") auto
  show ?case
  proof (cases r)
    case (Inl e')
    with mg r Cons.prems(3) have "e' = e" by simp
    with rec[OF t(2) Cons.prems(2)] r Inl show ?thesis by simp
  next
    case (Inr i)
    with mg r Cons.prems(3)
    have rest: "createDependencies recur lk ds (m(referenceName d \<mapsto> i)) h1 = Some (Inl e, h')"
      by simp
    from pres[OF t(2) Cons.prems(2)] r Inr have "P h1" by simp
    with Cons.IH[OF _ _ rest] Cons.prems(1) show ?thesis by simp
  qed
qed

lemma createAll_error:
  assumes rec: "\<And>t h e h'. T t \<Longrightarrow> P h \<Longrightarrow> recur t h = Some (Inl e, h') \<Longrightarrow> Q e"
    and pres: "\<And>t h i h'. T t \<Longrightarrow> P h \<Longrightarrow> recur t h = Some (Inr i, h') \<Longrightarrow> P h'"
    and ok: "\<And>s. s \<in> set ss \<Longrightarrow> T s"
    and P: "P h"
    and run: "createAll recur ss h = Some (Inl e, h')"
  shows "Q e"
  using ok P run
proof (induction ss arbitrary: h)
  case Nil
  then show ?case by simp
next
  case (Cons s ss)
  then have T: "T s" by simp
  from Cons.prems(3) obtain r h1 where r: "recur s h = Some (r, h1)"
    by (cases "recur s h") auto
  show ?case
  proof (cases r)
    case (Inl e')
    with r Cons.prems(3) have "e' = e" by simp
    with rec[OF T Cons.prems(2)] r Inl show ?thesis by simp
  next
    case (Inr i)
    with r Cons.prems(3) have rest: "createAll recur ss h1 = Some (Inl e, h')" by simp
    from pres[OF T Cons.prems(2)] r Inr have "P h1" by simp
    with Cons.IH[OF _ _ rest] Cons.prems(1) show ?thesis by simp
  qed
qed

text \<open>On a well-formed heap with resolvable dependencies the only exception that recursive
  construction raises is the cycle error.\<close>

lemma createService_errors:
  assumes cl0: "\<forall>spec t. lk spec = Found t \<longrightarrow> t \<in> A"
    and res0: "\<forall>s\<in>A. \<forall>d\<in>set (D s). \<exists>t. lk (specOf d) = Found t"
  shows "s \<in> A \<Longrightarrow> wellFormed lk h \<Longrightarrow> \<forall>r. dependencies (services h r) = D r \<Longrightarrow>
         createService fuel lk s h = Some (Inl e, h') \<Longrightarrow>
         e = Error INTERNAL CycleDuringConstruction"
proof (induction fuel arbitrary: s h e h')
  case 0
  then show ?case by simp
next
  case (Suc fuel)
  note cl = cl0[rule_format] and res = res0[rule_format]
  let ?P = "\<lambda>h. wellFormed lk h \<and> (\<forall>r. dependencies (services h r) = D r)"
  from Suc.prems(4) show ?case
  proof (cases rule: createService_Suc_cases)
    case noinstance
    with Suc.prems(2) show ?thesis by (auto simp: wellFormed_def)
  next
    case invalid
    with Suc.prems(2) show ?thesis by (auto simp: wellFormed_def)
  next
    case (failed e')
    have "e' = Error INTERNAL CycleDuringConstruction"
    proof (rule createDependencies_error[where T = "\<lambda>t. t \<in> A" and P = ?P
          and Q = "\<lambda>e. e = Error INTERNAL CycleDuringConstruction", OF _ _ _ _ failed(2)])
      show "\<And>t h e h'. t \<in> A \<Longrightarrow> ?P h \<Longrightarrow> createService fuel lk t h = Some (Inl e, h') \<Longrightarrow>
          e = Error INTERNAL CycleDuringConstruction"
        using Suc.IH by blast
      show "\<And>t h i h'. t \<in> A \<Longrightarrow> ?P h \<Longrightarrow> createService fuel lk t h = Some (Inr i, h') \<Longrightarrow> ?P h'"
        using createService_wellFormed createService_frame by (fastforce simp: frame_def)
      show "\<And>d. d \<in> set (dependencies (services h s)) \<Longrightarrow> \<exists>t. lk (specOf d) = Found t \<and> t \<in> A"
        using res[OF Suc.prems(1)] Suc.prems(3) cl by fastforce
      show "?P (beforeCreate s h)"
        using Suc.prems(2,3) failed(1) by (simp add: wellFormed_beforeCreate beforeCreate_fields)
    qed
    with failed(3) Suc.prems(4) show ?thesis by simp
  qed simp_all
qed

lemma createDependencies_success_rel:
  assumes step: "\<And>t h i h'. recur t h = Some (Inr i, h') \<Longrightarrow> R h h'"
    and refl: "\<And>h. R h h"
    and trans: "\<And>a b c. R a b \<Longrightarrow> R b c \<Longrightarrow> R a c"
    and run: "createDependencies recur lk ds m h = Some (Inr refs, h')"
  shows "R h h'"
  using run
proof (induction ds arbitrary: m h)
  case Nil
  then show ?case by (simp add: refl)
next
  case (Cons d ds)
  then obtain t i h1 where rec: "recur t h = Some (Inr i, h1)"
    and rest: "createDependencies recur lk ds (m(referenceName d \<mapsto> i)) h1 = Some (Inr refs, h')"
    by (auto split: option.splits sum.splits)
  from step[OF rec] Cons.IH[OF rest] show ?case by (rule trans)
qed

text \<open>A construction that comes back without an exception leaves no service under
  construction that was not under construction before.\<close>

lemma createService_no_new_constructing:
  "createService fuel lk s h = Some (Inr i, h') \<Longrightarrow>
   state (services h' r) = Constructing \<Longrightarrow> state (services h r) = Constructing"
proof (induction fuel arbitrary: s h i h' r)
  case 0
  then show ?case by simp
next
  case (Suc fuel)
  from Suc.prems(1) show ?case
  proof (cases rule: createService_Suc_cases)
    case (shared j)
    with Suc.prems(2) show ?thesis by (simp add: addRef_fields)
  next
    case (created refs h2)
    have "\<forall>r. state (services h2 r) = Constructing \<longrightarrow>
               state (services (beforeCreate s h) r) = Constructing"
      by (rule createDependencies_success_rel[where
            R = "\<lambda>a b. \<forall>r. state (services b r) = Constructing \<longrightarrow> state (services a r) = Constructing",
            OF _ _ _ created(2)])
         (use Suc.IH in blast)+
    with Suc.prems(2) created(4) show ?thesis
      by (auto simp: create_fields beforeCreate_fields split: if_splits)
  qed simp_all
qed

section \<open>Acyclic dependency graphs\<close>

text \<open>On an acyclic graph of resolvable dependencies, a construction that starts at a
  service from which no service under construction can be reached raises no exception.\<close>

lemma createService_acyclic_success:
  assumes cl0: "\<forall>spec t. lk spec = Found t \<longrightarrow> t \<in> A"
    and res0: "\<forall>s\<in>A. \<forall>d\<in>set (D s). \<exists>t. lk (specOf d) = Found t"
    and E: "E = {(s, t). s \<in> A \<and> (\<exists>d\<in>set (D s). lk (specOf d) = Found t)}"
    and acyc: "acyclic E"
  shows "s \<in> A \<Longrightarrow> wellFormed lk h \<Longrightarrow> \<forall>r. dependencies (services h r) = D r \<Longrightarrow>
         \<forall>r. (s, r) \<in> E\<^sup>* \<longrightarrow> state (services h r) \<noteq> Constructing \<Longrightarrow>
         createService fuel lk s h = Some (res', h') \<Longrightarrow> \<exists>i. res' = Inr i"
proof (induction fuel arbitrary: s h res' h')
  case 0
  then show ?case by simp
next
  case (Suc fuel)
  note cl = cl0[rule_format] and res = res0[rule_format]
  from Suc.prems(5) show ?case
  proof (cases rule: createService_Suc_cases)
    case noinstance
    with Suc.prems(2) show ?thesis by (auto simp: wellFormed_def)
  next
    case cycle
    with Suc.prems(4) show ?thesis by auto
  next
    case invalid
    with Suc.prems(2) show ?thesis by (auto simp: wellFormed_def)
  next
    case (failed e)
    let ?h1 = "beforeCreate s h"
    let ?P = "\<lambda>k. wellFormed lk k \<and> (\<forall>r. dependencies (services k r) = D r) \<and>
                  (\<forall>r. state (services k r) = Constructing \<longrightarrow> state (services ?h1 r) = Constructing)"
    let ?T = "\<lambda>t. t \<in> A \<and> (s, t) \<in> E"
    have False
    proof (rule createDependencies_error[where T = ?T and P = ?P and Q = "\<lambda>e. False",
          OF _ _ _ _ failed(2)])
      show "?P ?h1"
        using Suc.prems(2,3) failed(1) by (simp add: wellFormed_beforeCreate beforeCreate_fields)
      show "\<And>d. d \<in> set (dependencies (services h s)) \<Longrightarrow> \<exists>t. lk (specOf d) = Found t \<and> ?T t"
      proof -
        fix d assume d: "d \<in> set (dependencies (services h s))"
        with Suc.prems(3) have dD: "d \<in> set (D s)" by simp
        from res[OF Suc.prems(1) dD] obtain t where t: "lk (specOf d) = Found t" by blast
        with dD Suc.prems(1) have "(s, t) \<in> E" unfolding E by blast
        with t cl[OF t] show "\<exists>t. lk (specOf d) = Found t \<and> ?T t" by blast
      qed
      show "\<And>t k i k'. ?T t \<Longrightarrow> ?P k \<Longrightarrow> createService fuel lk t k = Some (Inr i, k') \<Longrightarrow> ?P k'"
      proof (intro conjI)
        fix t k i k'
        assume T: "?T t" and P: "?P k" and run: "createService fuel lk t k = Some (Inr i, k')"
        from run P show "wellFormed lk k'" by (blast intro: createService_wellFormed)
        from createService_frame[OF run] P show "\<forall>r. dependencies (services k' r) = D r"
          by (simp add: frame_def)
        from createService_no_new_constructing[OF run] P
        show "\<forall>r. state (services k' r) = Constructing \<longrightarrow> state (services ?h1 r) = Constructing"
          by blast
      qed
      show "\<And>t k e k'. ?T t \<Longrightarrow> ?P k \<Longrightarrow> createService fuel lk t k = Some (Inl e, k') \<Longrightarrow> False"
      proof -
        fix t k e k'
        assume T: "?T t" and P: "?P k" and run: "createService fuel lk t k = Some (Inl e, k')"
        have "\<forall>r. (t, r) \<in> E\<^sup>* \<longrightarrow> state (services k r) \<noteq> Constructing"
        proof (intro allI impI notI)
          fix r assume tr: "(t, r) \<in> E\<^sup>*" and c: "state (services k r) = Constructing"
          from c P have c1: "state (services ?h1 r) = Constructing" by blast
          show False
          proof (cases "r = s")
            case True
            with T tr have "(s, s) \<in> E\<^sup>+" by (auto intro: rtrancl_into_trancl2)
            with acyc show False by (simp add: acyclic_def)
          next
            case False
            with c1 have "state (services h r) = Constructing" by (simp add: beforeCreate_fields)
            moreover from T tr have "(s, r) \<in> E\<^sup>*" by (auto intro: converse_rtrancl_into_rtrancl)
            ultimately show False using Suc.prems(4) by blast
          qed
        qed
        from Suc.IH[OF _ _ _ this run] T P show False by auto
      qed
    qed
    then show ?thesis ..
  qed simp_all
qed

section \<open>Properties of start\<close>

lemma fresh_wellFormed: "fresh h \<Longrightarrow> wellFormed lk h"
  by (simp add: fresh_def wellFormed_def)

lemma createAll_wellFormed:
  assumes "createAll (createService fuel lk) ss h = Some (res, h')" and "wellFormed lk h"
  shows "wellFormed lk h'"
proof -
  have "wellFormed lk h \<longrightarrow> wellFormed lk h'"
    by (rule createAll_rel[where R = "\<lambda>a b. wellFormed lk a \<longrightarrow> wellFormed lk b", OF _ _ _ assms(1)])
       (auto intro: createService_wellFormed)
  with assms(2) show ?thesis by simp
qed

lemma createAll_frame:
  assumes "createAll (createService fuel lk) ss h = Some (res, h')"
  shows "frame h h'"
  using createService_frame frame_refl frame_trans assms by (rule createAll_rel)

lemma start_frame:
  assumes "start fuel L h = Some (res, L', h')"
  shows "frame h h'"
  using assms by (cases rule: start_cases) (auto intro: createAll_frame frame_refl)

lemma start_wellFormed:
  assumes "start fuel L h = Some (res, L', h')" and "wellFormed (serviceLookup L) h"
  shows "wellFormed (serviceLookup L) h'"
  using assms by (cases rule: start_cases) (auto intro: createAll_wellFormed)

section \<open>Counting references\<close>

lemma inbound_addRef: "inbound lk A (addRef s h) t = inbound lk A h t"
  by (simp add: inbound_def addRef_fields cong: if_cong)

lemma inbound_beforeCreate:
  assumes "state (services h s) = NotConstructed"
  shows "inbound lk A (beforeCreate s h) t = inbound lk A h t"
  unfolding inbound_def
  by (rule sum.cong) (use assms in \<open>auto simp: beforeCreate_fields cong: if_cong\<close>)

lemma inbound_create:
  assumes "finite A" and "s \<in> A" and "state (services h s) \<noteq> Constructed"
  shows "inbound lk A (snd (create s refs h)) t
           = inbound lk A h t + int (edgeCount lk (dependencies (services h s)) t)"
proof -
  let ?f = "\<lambda>k u. if state (services k u) = Constructed
              then int (edgeCount lk (dependencies (services k u)) t) else 0"
  let ?h' = "snd (create s refs h)"
  have rest: "(\<Sum>u\<in>A - {s}. ?f ?h' u) = (\<Sum>u\<in>A - {s}. ?f h u)"
    by (rule sum.cong) (auto simp: create_fields cong: if_cong)
  have "inbound lk A ?h' t = ?f ?h' s + (\<Sum>u\<in>A - {s}. ?f ?h' u)"
    unfolding inbound_def by (rule sum.remove[OF assms(1,2)])
  also have "\<dots> = int (edgeCount lk (dependencies (services h s)) t) + (\<Sum>u\<in>A - {s}. ?f h u)"
    unfolding rest by (simp add: create_fields)
  also have "(\<Sum>u\<in>A - {s}. ?f h u) = ?f h s + (\<Sum>u\<in>A - {s}. ?f h u)"
    using assms(3) by simp
  also have "\<dots> = inbound lk A h t"
    unfolding inbound_def by (rule sum.remove[OF assms(1,2), symmetric])
  finally show ?thesis by simp
qed

lemma topRefs_addRef:
  assumes "state (services h s) = Constructed"
  shows "topRefs lk A (addRef s h) t = topRefs lk A h t + (if t = s then 1 else 0)"
  using assms by (auto simp: topRefs_def inbound_addRef addRef_fields)

lemma topRefs_beforeCreate:
  assumes "state (services h s) = NotConstructed"
  shows "topRefs lk A (beforeCreate s h) t = topRefs lk A h t"
  using assms by (auto simp: topRefs_def inbound_beforeCreate beforeCreate_fields)

lemma topRefs_create:
  assumes "finite A" and "s \<in> A" and "state (services h s) \<noteq> Constructed"
  shows "topRefs lk A (snd (create s refs h)) t
           = topRefs lk A h t + (if t = s then 1 else 0)
             - int (edgeCount lk (dependencies (services h s)) t)"
  using assms(3) by (auto simp: topRefs_def inbound_create[OF assms] create_fields)

lemma edgeCount_Cons:
  "edgeCount lk (d # ds) t = (if lk (specOf d) = Found t then 1 else 0) + edgeCount lk ds t"
  by (simp add: edgeCount_def)

lemma createDependencies_topRefs:
  assumes rec: "\<And>t h i h'. t \<in> A \<Longrightarrow> recur t h = Some (Inr i, h') \<Longrightarrow>
        \<forall>x. topRefs lk A h' x = topRefs lk A h x + (if x = t then 1 else 0)"
    and cl: "\<forall>spec t. lk spec = Found t \<longrightarrow> t \<in> A"
    and run: "createDependencies recur lk ds m h = Some (Inr refs, h')"
  shows "\<forall>x. topRefs lk A h' x = topRefs lk A h x + int (edgeCount lk ds x)"
  using run
proof (induction ds arbitrary: m h)
  case Nil
  then show ?case by (simp add: edgeCount_def)
next
  case (Cons d ds)
  from Cons.prems obtain t where t: "mustGet lk (specOf d) = Inr t"
    by (cases "mustGet lk (specOf d)") simp_all
  then have lk: "lk (specOf d) = Found t"
    by (simp add: mustGet_def split: ServiceLookupResult.splits)
  with cl have tA: "t \<in> A" by blast
  from Cons.prems t obtain i h1 where r: "recur t h = Some (Inr i, h1)"
    and rest: "createDependencies recur lk ds (m(referenceName d \<mapsto> i)) h1 = Some (Inr refs, h')"
    by (auto split: option.splits sum.splits)
  from rec[OF tA r] Cons.IH[OF rest] lk show ?case
    by (auto simp: edgeCount_Cons)
qed

text \<open>A construction that comes back without an exception adds exactly one reference that
  is not accounted for by a dependency of a constructed service: the one of its caller.\<close>

lemma createService_topRefs:
  assumes cl: "\<forall>spec t. lk spec = Found t \<longrightarrow> t \<in> A"
    and fin: "finite A"
  shows "s \<in> A \<Longrightarrow> createService fuel lk s h = Some (Inr i, h') \<Longrightarrow>
         \<forall>x. topRefs lk A h' x = topRefs lk A h x + (if x = s then 1 else 0)"
proof (induction fuel arbitrary: s h i h')
  case 0
  then show ?case by simp
next
  case (Suc fuel)
  from Suc.prems(2) show ?case
  proof (cases rule: createService_Suc_cases)
    case (shared j)
    then show ?thesis by (simp add: topRefs_addRef)
  next
    case (created refs h2)
    let ?h1 = "beforeCreate s h"
    have 1: "\<forall>x. topRefs lk A h2 x
               = topRefs lk A ?h1 x + int (edgeCount lk (dependencies (services h s)) x)"
      using Suc.IH cl created(2) by (rule createDependencies_topRefs)
    have f12: "frame ?h1 h2"
      using createService_frame frame_refl frame_trans created(2) by (rule createDependencies_rel)
    then have st: "state (services h2 s) = Constructing"
      and deps: "dependencies (services h2 s) = dependencies (services h s)"
      by (simp_all add: frame_def beforeCreate_fields)
    from st have "state (services h2 s) \<noteq> Constructed" by simp
    from topRefs_create[OF fin Suc.prems(1) this, of lk refs] deps created(4)
    have 2: "\<forall>x. topRefs lk A h' x = topRefs lk A h2 x + (if x = s then 1 else 0)
               - int (edgeCount lk (dependencies (services h s)) x)"
      by simp
    from 1 2 topRefs_beforeCreate[OF created(1), of lk A] show ?thesis by simp
  qed simp_all
qed

lemma createAll_topRefs:
  assumes rec: "\<And>t h i h'. t \<in> A \<Longrightarrow> recur t h = Some (Inr i, h') \<Longrightarrow>
        \<forall>x. topRefs lk A h' x = topRefs lk A h x + (if x = t then 1 else 0)"
  shows "set ss \<subseteq> A \<Longrightarrow> createAll recur ss h = Some (Inr u, h') \<Longrightarrow>
         \<forall>x. topRefs lk A h' x = topRefs lk A h x + int (count_list ss x)"
proof (induction ss arbitrary: h)
  case Nil
  then show ?case by simp
next
  case (Cons s ss)
  then obtain i h1 where r: "recur s h = Some (Inr i, h1)"
    and rest: "createAll recur ss h1 = Some (Inr u, h')"
    by (auto split: option.splits sum.splits)
  from Cons.prems have "s \<in> A" "set ss \<subseteq> A" by simp_all
  from rec[OF this(1) r] Cons.IH[OF this(2) rest] show ?case by auto
qed

lemma distinct_count_list: "distinct xs \<Longrightarrow> x \<in> set xs \<Longrightarrow> count_list xs x = 1"
  by (induction xs) auto

lemma fresh_topRefs: "fresh h \<Longrightarrow> topRefs lk A h t = 0"
  by (simp add: fresh_def topRefs_def inbound_def)

text \<open>After a successful \<^verbatim>\<open>start\<close> of a newly built layer, the reference count of a
  service is one for the layer's own visit plus one for every declared dependency, of any
  service of the layer, that resolves to it.\<close>

lemma start_useCount:
  assumes closed: "lookupClosed L" and fresh: "fresh h" and dist: "distinct (allServices L)"
    and run: "start fuel L h = Some (Inr u, L', h')" and p: "p \<in> set (allServices L)"
  shows "useCount (services h' p)
           = 1 + (\<Sum>s\<in>set (allServices L).
                    int (edgeCount (serviceLookup L) (dependencies (services h s)) p))"
proof -
  let ?lk = "serviceLookup L" and ?A = "set (allServices L)"
  have cl: "\<forall>spec t. ?lk spec = Found t \<longrightarrow> t \<in> ?A"
    using closed by (simp add: lookupClosed_def)
  from run have all: "createAll (createService fuel ?lk) (allServices L) h = Some (Inr (), h')"
    by (cases rule: start_cases) simp_all
  have "\<forall>x. topRefs ?lk ?A h' x = topRefs ?lk ?A h x + int (count_list (allServices L) x)"
  proof (rule createAll_topRefs[OF _ _ all])
    show "\<And>t h i h'. t \<in> ?A \<Longrightarrow> createService fuel ?lk t h = Some (Inr i, h') \<Longrightarrow>
        \<forall>x. topRefs ?lk ?A h' x = topRefs ?lk ?A h x + (if x = t then 1 else 0)"
      using cl finite_set by (rule createService_topRefs)
  qed simp
  with fresh p dist have top: "topRefs ?lk ?A h' p = 1"
    by (simp add: fresh_topRefs distinct_count_list)
  have c: "\<forall>s\<in>?A. state (services h' s) = Constructed"
    using all
    by (rule createAll_constructed[rotated 2])
       (auto dest: createService_success createService_frame)
  have fr: "frame h h'" using run by (rule start_frame)
  have "inbound ?lk ?A h' p = (\<Sum>s\<in>?A. int (edgeCount ?lk (dependencies (services h s)) p))"
    unfolding inbound_def by (rule sum.cong) (use c fr in \<open>auto simp: frame_def\<close>)
  with top c p show ?thesis by (simp add: topRefs_def)
qed

section \<open>The instances handed to constructors\<close>

lemma keeps_refl: "keeps h h"
  by (simp add: keeps_def)

lemma keeps_trans: "keeps a b \<Longrightarrow> keeps b c \<Longrightarrow> keeps a c"
  by (simp add: keeps_def)

lemma keeps_handedOver:
  assumes "keeps h h'" and "handedOver lk h c"
  shows "handedOver lk h' c"
proof (cases c)
  case (DestructorCall s i)
  then show ?thesis by (simp add: handedOver_def)
next
  case (ConstructorCall s refs i snap)
  with assms(2) have s: "state (services h s) = Constructed" "serviceInstance (services h s) = Some i"
    and d: "\<forall>d\<in>set (dependencies (services h s)).
             \<exists>d'\<in>set (dependencies (services h s)). referenceName d' = referenceName d \<and>
               (\<exists>t. lk (specOf d') = Found t \<and> state (services h t) = Constructed \<and>
                    refs (referenceName d) = serviceInstance (services h t))"
    by (simp_all add: handedOver_def)
  from assms(1) have k: "\<And>r. dependencies (services h' r) = dependencies (services h r)"
    "\<And>r. state (services h r) = Constructed \<Longrightarrow> state (services h' r) = Constructed"
    "\<And>r. state (services h r) = Constructed \<Longrightarrow>
        serviceInstance (services h' r) = serviceInstance (services h r)"
    by (simp_all add: keeps_def)
  have "\<forall>d\<in>set (dependencies (services h s)).
             \<exists>d'\<in>set (dependencies (services h s)). referenceName d' = referenceName d \<and>
               (\<exists>t. lk (specOf d') = Found t \<and> state (services h' t) = Constructed \<and>
                    refs (referenceName d) = serviceInstance (services h' t))"
  proof
    fix x assume "x \<in> set (dependencies (services h s))"
    with d obtain d' t where *: "d' \<in> set (dependencies (services h s))"
      "referenceName d' = referenceName x" "lk (specOf d') = Found t"
      "state (services h t) = Constructed" "refs (referenceName x) = serviceInstance (services h t)"
      by blast
    from *(4) k(2,3)[of t] *(5) have "state (services h' t) = Constructed"
      "refs (referenceName x) = serviceInstance (services h' t)" by simp_all
    with *(1,2,3) show "\<exists>d'\<in>set (dependencies (services h s)). referenceName d' = referenceName x \<and>
               (\<exists>t. lk (specOf d') = Found t \<and> state (services h' t) = Constructed \<and>
                    refs (referenceName x) = serviceInstance (services h' t))" by blast
  qed
  with s k(1)[of s] k(2,3)[of s] ConstructorCall show ?thesis by (simp add: handedOver_def)
qed

lemma handsOver_refl: "handsOver lk h h"
  by (simp add: handsOver_def keeps_refl)

lemma handsOver_trans:
  assumes "handsOver lk a b" and "handsOver lk b c"
  shows "handsOver lk a c"
proof -
  from assms(1) obtain n1 where 1: "keeps a b" "calls b = n1 @ calls a"
    "\<forall>x\<in>set n1. handedOver lk b x"
    "\<forall>s. state (services b s) = Constructed \<longrightarrow> state (services a s) = Constructed \<or>
         (\<exists>references i snapshot. ConstructorCall s references i snapshot \<in> set n1)"
    unfolding handsOver_def by blast
  from assms(2) obtain n2 where 2: "keeps b c" "calls c = n2 @ calls b"
    "\<forall>x\<in>set n2. handedOver lk c x"
    "\<forall>s. state (services c s) = Constructed \<longrightarrow> state (services b s) = Constructed \<or>
         (\<exists>references i snapshot. ConstructorCall s references i snapshot \<in> set n2)"
    unfolding handsOver_def by blast
  have k: "keeps a c" using 1(1) 2(1) by (rule keeps_trans)
  have c: "calls c = (n2 @ n1) @ calls a" using 1(2) 2(2) by simp
  have h: "\<forall>x\<in>set (n2 @ n1). handedOver lk c x"
    using 1(3) 2(3) keeps_handedOver[OF 2(1)] by auto
  have e: "\<forall>s. state (services c s) = Constructed \<longrightarrow> state (services a s) = Constructed \<or>
         (\<exists>references i snapshot. ConstructorCall s references i snapshot \<in> set (n2 @ n1))"
    using 1(4) 2(4) by (metis Un_iff set_append)
  from k c h e show ?thesis unfolding handsOver_def by blast
qed

lemma handsOver_create:
  assumes st: "state (services h s) = Constructing"
    and deps: "\<forall>d\<in>set (dependencies (services h s)).
            \<exists>t. lk (specOf d) = Found t \<and> state (services h t) = Constructed"
    and refs: "referencesResolved lk (dependencies (services h s)) refs h"
  shows "handsOver lk h (snd (create s refs h))"
proof -
  let ?h' = "snd (create s refs h)"
  let ?c = "ConstructorCall s refs (nextInstance h) (services h)"
  have k: "keeps h ?h'" using st by (simp add: keeps_def create_fields)
  have c: "calls ?h' = [?c] @ calls h" by (simp add: create_fields)
  have "\<forall>d\<in>set (dependencies (services h s)).
             \<exists>d'\<in>set (dependencies (services h s)). referenceName d' = referenceName d \<and>
               (\<exists>t. lk (specOf d') = Found t \<and> state (services ?h' t) = Constructed \<and>
                    refs (referenceName d) = serviceInstance (services ?h' t))"
  proof
    fix x assume "x \<in> set (dependencies (services h s))"
    with refs obtain d' t where *: "d' \<in> set (dependencies (services h s))"
      "referenceName d' = referenceName x" "lk (specOf d') = Found t"
      "refs (referenceName x) = serviceInstance (services h t)"
      unfolding referencesResolved_def by blast
    from deps *(1,3) have t: "state (services h t) = Constructed" by fastforce
    with st have "t \<noteq> s" by auto
    with t *(4) have "state (services ?h' t) = Constructed"
      "refs (referenceName x) = serviceInstance (services ?h' t)" by (simp_all add: create_fields)
    with *(1,2,3) show "\<exists>d'\<in>set (dependencies (services h s)). referenceName d' = referenceName x \<and>
               (\<exists>t. lk (specOf d') = Found t \<and> state (services ?h' t) = Constructed \<and>
                    refs (referenceName x) = serviceInstance (services ?h' t))" by blast
  qed
  then have h: "\<forall>x\<in>set [?c]. handedOver lk ?h' x"
    by (simp add: handedOver_def create_fields)
  have e: "\<forall>r. state (services ?h' r) = Constructed \<longrightarrow> state (services h r) = Constructed \<or>
         (\<exists>references i snapshot. ConstructorCall r references i snapshot \<in> set [?c])"
    by (simp add: create_fields)
  from k c h e show ?thesis unfolding handsOver_def by blast
qed

lemma start_handsOver:
  assumes "start fuel L h = Some (res, L', h')"
  shows "handsOver (serviceLookup L) h h'"
proof (rule start_rel[where R = "handsOver (serviceLookup L)", OF _ _ _ _ _ assms])
  show "\<And>h. handsOver (serviceLookup L) h h" by (rule handsOver_refl)
  show "\<And>a b c. handsOver (serviceLookup L) a b \<Longrightarrow> handsOver (serviceLookup L) b c
        \<Longrightarrow> handsOver (serviceLookup L) a c" by (rule handsOver_trans)
  show "\<And>h s. handsOver (serviceLookup L) h (addRef s h)"
    by (simp add: handsOver_def keeps_def addRef_fields)
  show "\<And>h s. state (services h s) = NotConstructed \<Longrightarrow>
      handsOver (serviceLookup L) h (beforeCreate s h)"
    by (simp add: handsOver_def keeps_def beforeCreate_fields)
  show "\<And>h s refs. state (services h s) = Constructing \<Longrightarrow>
        (\<forall>d\<in>set (dependencies (services h s)).
            \<exists>t. serviceLookup L (specOf d) = Found t \<and> state (services h t) = Constructed) \<Longrightarrow>
        referencesResolved (serviceLookup L) (dependencies (services h s)) refs h \<Longrightarrow>
        handsOver (serviceLookup L) h (snd (create s refs h))"
    by (rule handsOver_create)
qed

section \<open>Sharing a provider\<close>

lemma same_reference_name:
  assumes "distinct (map referenceName ds)" and "d \<in> set ds" and "d' \<in> set ds"
    and "referenceName d' = referenceName d"
  shows "d' = d"
proof -
  from assms(1) have "inj_on referenceName (set ds)" by (simp add: distinct_map)
  from inj_onD[OF this assms(4) assms(3) assms(2)] show ?thesis .
qed

lemma sum_two_dependents:
  assumes "finite A" and "s1 \<in> A" and "s2 \<in> A" and "s1 \<noteq> s2"
    and "\<forall>u\<in>A. f u = (if u = s1 \<or> u = s2 then 1 else 0)"
  shows "(\<Sum>u\<in>A. int (f u)) = 2"
proof -
  have "(\<Sum>u\<in>A. int (f u)) = int (f s1) + (\<Sum>u\<in>A - {s1}. int (f u))"
    by (rule sum.remove[OF assms(1,2)])
  also have "(\<Sum>u\<in>A - {s1}. int (f u)) = int (f s2) + (\<Sum>u\<in>A - {s1} - {s2}. int (f u))"
    by (rule sum.remove) (use assms in auto)
  also have "(\<Sum>u\<in>A - {s1} - {s2}. int (f u)) = (\<Sum>u\<in>A - {s1} - {s2}. 0)"
    by (rule sum.cong) (use assms(5) in auto)
  finally show ?thesis using assms(2,3,5) by simp
qed

section \<open>References in the course of construction\<close>

lemma claimed_addRef: "claimed lk A (addRef s h) t = claimed lk A h t"
  by (simp add: claimed_def addRef_fields cong: if_cong)

lemma claimed_create:
  assumes "state (services h s) = Constructing"
  shows "claimed lk A (snd (create s refs h)) t = claimed lk A h t"
  unfolding claimed_def
  by (rule sum.cong) (use assms in \<open>auto simp: create_fields cong: if_cong\<close>)

lemma claimed_beforeCreate:
  assumes "finite A" and "s \<in> A" and "state (services h s) = NotConstructed"
  shows "claimed lk A (beforeCreate s h) t
           = claimed lk A h t + int (edgeCount lk (dependencies (services h s)) t)"
proof -
  let ?f = "\<lambda>k u. if state (services k u) = Constructed \<or> state (services k u) = Constructing
              then int (edgeCount lk (dependencies (services k u)) t) else 0"
  let ?h' = "beforeCreate s h"
  have rest: "(\<Sum>u\<in>A - {s}. ?f ?h' u) = (\<Sum>u\<in>A - {s}. ?f h u)"
    by (rule sum.cong) (auto simp: beforeCreate_fields cong: if_cong)
  have "claimed lk A ?h' t = ?f ?h' s + (\<Sum>u\<in>A - {s}. ?f ?h' u)"
    unfolding claimed_def by (rule sum.remove[OF assms(1,2)])
  also have "\<dots> = int (edgeCount lk (dependencies (services h s)) t) + (\<Sum>u\<in>A - {s}. ?f h u)"
    unfolding rest by (simp add: beforeCreate_fields)
  also have "(\<Sum>u\<in>A - {s}. ?f h u) = ?f h s + (\<Sum>u\<in>A - {s}. ?f h u)"
    using assms(3) by simp
  also have "\<dots> = claimed lk A h t"
    unfolding claimed_def by (rule sum.remove[OF assms(1,2), symmetric])
  finally show ?thesis by simp
qed

lemma layerRefs_addRef:
  assumes "state (services h s) = Constructed"
  shows "layerRefs lk A (addRef s h) t = layerRefs lk A h t + (if t = s then 1 else 0)"
  using assms by (auto simp: layerRefs_def claimed_addRef addRef_fields)

lemma layerRefs_beforeCreate:
  assumes "finite A" and "s \<in> A" and "state (services h s) = NotConstructed"
  shows "layerRefs lk A (beforeCreate s h) t
           = layerRefs lk A h t - int (edgeCount lk (dependencies (services h s)) t)"
  using assms(3) by (auto simp: layerRefs_def claimed_beforeCreate[OF assms] beforeCreate_fields)

lemma layerRefs_create:
  assumes "state (services h s) = Constructing"
  shows "layerRefs lk A (snd (create s refs h)) t = layerRefs lk A h t + (if t = s then 1 else 0)"
  using assms by (auto simp: layerRefs_def claimed_create create_fields)

text \<open>Whatever the outcome, the loop adds at most one reference per dependency it walks.\<close>

lemma createDependencies_layerRefs:
  assumes rec0: "\<forall>t h r h'. t \<in> A \<longrightarrow> recur t h = Some (r, h') \<longrightarrow>
        (\<forall>x. layerRefs lk A h' x \<le> layerRefs lk A h x + (if x = t then 1 else 0))"
    and cl: "\<forall>spec t. lk spec = Found t \<longrightarrow> t \<in> A"
  shows "createDependencies recur lk ds m h = Some (res, h') \<Longrightarrow>
         \<forall>x. layerRefs lk A h' x \<le> layerRefs lk A h x + int (edgeCount lk ds x)"
proof (induction ds arbitrary: m h)
  case Nil
  then show ?case by (simp add: edgeCount_def)
next
  case (Cons d ds)
  show ?case
  proof (cases "mustGet lk (specOf d)")
    case (Inl e)
    with Cons.prems show ?thesis by simp
  next
    case (Inr t)
    then have lk: "lk (specOf d) = Found t"
      by (simp add: mustGet_def split: ServiceLookupResult.splits)
    with cl have tA: "t \<in> A" by blast
    from Cons.prems Inr obtain r h1 where r: "recur t h = Some (r, h1)"
      by (cases "recur t h") auto
    note step = rec0[rule_format, OF tA r]
    show ?thesis
    proof (cases r)
      case (Inl e)
      with Inr r Cons.prems have h': "h' = h1" by simp
      show ?thesis
      proof
        fix x
        from step[rule_format, of x] lk
        show "layerRefs lk A h' x \<le> layerRefs lk A h x + int (edgeCount lk (d # ds) x)"
          unfolding h' by (auto simp: edgeCount_Cons)
      qed
    next
      case i: (Inr i)
      with Inr r Cons.prems
      have "createDependencies recur lk ds (m(referenceName d \<mapsto> i)) h1 = Some (res, h')"
        by simp
      note rest = Cons.IH[OF this]
      show ?thesis
      proof
        fix x
        from step[rule_format, of x] rest[rule_format, of x] lk
        show "layerRefs lk A h' x \<le> layerRefs lk A h x + int (edgeCount lk (d # ds) x)"
          by (auto simp: edgeCount_Cons)
      qed
    qed
  qed
qed


lemma createService_layerRefs:
  assumes cl: "\<forall>spec t. lk spec = Found t \<longrightarrow> t \<in> A"
    and fin: "finite A"
  shows "s \<in> A \<Longrightarrow> createService fuel lk s h = Some (res, h') \<Longrightarrow>
         \<forall>x. layerRefs lk A h' x \<le> layerRefs lk A h x + (if x = s then 1 else 0)"
proof (induction fuel arbitrary: s h res h')
  case 0
  then show ?case by simp
next
  case (Suc fuel)
  let ?h1 = "beforeCreate s h"
  have rec: "\<forall>t k r k'. t \<in> A \<longrightarrow> createService fuel lk t k = Some (r, k') \<longrightarrow>
      (\<forall>x. layerRefs lk A k' x \<le> layerRefs lk A k x + (if x = t then 1 else 0))"
    using Suc.IH by blast
  have loop: "\<forall>x. layerRefs lk A k x \<le> layerRefs lk A h x"
    if nc: "state (services h s) = NotConstructed"
      and run: "createDependencies (createService fuel lk) lk (dependencies (services h s))
                  Map.empty ?h1 = Some (r, k)" for r k
  proof
    fix x
    from createDependencies_layerRefs[where recur = "createService fuel lk" and A = A, OF rec cl run]
    have "layerRefs lk A k x
            \<le> layerRefs lk A ?h1 x + int (edgeCount lk (dependencies (services h s)) x)"
      by blast
    with layerRefs_beforeCreate[OF fin Suc.prems(1) nc, of lk x]
    show "layerRefs lk A k x \<le> layerRefs lk A h x" by simp
  qed
  from Suc.prems(2) show ?case
  proof (cases rule: createService_Suc_cases)
    case (shared j)
    then show ?thesis by (simp add: layerRefs_addRef)
  next
    case (failed e)
    from loop[OF failed(1,2)] show ?thesis by (auto intro: order_trans)
  next
    case (created refs h2)
    have f12: "frame ?h1 h2"
      using createService_frame frame_refl frame_trans created(2) by (rule createDependencies_rel)
    then have st: "state (services h2 s) = Constructing"
      by (simp add: frame_def beforeCreate_fields)
    show ?thesis
    proof
      fix x
      from loop[OF created(1,2)] have "layerRefs lk A h2 x \<le> layerRefs lk A h x" by blast
      with layerRefs_create[OF st, of lk A refs x] created(4)
      show "layerRefs lk A h' x \<le> layerRefs lk A h x + (if x = s then 1 else 0)" by simp
    qed
  qed simp_all
qed

lemma createAll_layerRefs:
  assumes rec0: "\<forall>t h r h'. t \<in> A \<longrightarrow> recur t h = Some (r, h') \<longrightarrow>
        (\<forall>x. layerRefs lk A h' x \<le> layerRefs lk A h x + (if x = t then 1 else 0))"
  shows "set ss \<subseteq> A \<Longrightarrow> createAll recur ss h = Some (res, h') \<Longrightarrow>
         \<forall>x. layerRefs lk A h' x \<le> layerRefs lk A h x + int (count_list ss x)"
proof (induction ss arbitrary: h)
  case Nil
  then show ?case by simp
next
  case (Cons s ss)
  from Cons.prems(1) have sA: "s \<in> A" and ssA: "set ss \<subseteq> A" by simp_all
  from Cons.prems(2) obtain r h1 where r: "recur s h = Some (r, h1)"
    by (cases "recur s h") auto
  note step = rec0[rule_format, OF sA r]
  show ?case
  proof (cases r)
    case (Inl e)
    with r Cons.prems(2) have h': "h' = h1" by simp
    show ?thesis
    proof
      fix x
      from step[rule_format, of x]
      show "layerRefs lk A h' x \<le> layerRefs lk A h x + int (count_list (s # ss) x)"
        unfolding h' by auto
    qed
  next
    case (Inr i)
    with r Cons.prems(2) have "createAll recur ss h1 = Some (res, h')" by simp
    note rest = Cons.IH[OF ssA this]
    show ?thesis
    proof
      fix x
      from step[rule_format, of x] rest[rule_format, of x]
      show "layerRefs lk A h' x \<le> layerRefs lk A h x + int (count_list (s # ss) x)"
        by auto
    qed
  qed
qed

lemma createService_idle:
  assumes "createService fuel lk s h = Some (res, h')"
  shows "idle h h'"
proof (rule createService_rel[where R = idle and lk = lk, OF _ _ _ _ _ assms])
  show "\<And>h. idle h h" by (simp add: idle_def)
  show "\<And>a b c. idle a b \<Longrightarrow> idle b c \<Longrightarrow> idle a c"
    unfolding idle_def by metis
  show "\<And>h s. state (services h s) = Constructed \<Longrightarrow> idle h (addRef s h)"
    by (simp add: idle_def addRef_fields)
  show "\<And>h s. state (services h s) = NotConstructed \<Longrightarrow> idle h (beforeCreate s h)"
    by (simp add: idle_def beforeCreate_fields)
  show "\<And>h s refs. idle h (snd (create s refs h))"
    by (simp add: idle_def create_fields)
qed

lemma claimed_le:
  assumes "finite A"
  shows "claimed lk A h t \<le> (\<Sum>u\<in>A. int (edgeCount lk (dependencies (services h u)) t))"
  unfolding claimed_def by (rule sum_mono) simp

lemma claimed_fresh: "fresh h \<Longrightarrow> claimed lk A h t = 0"
  by (simp add: claimed_def fresh_def)

lemma layerRefs_fresh: "fresh h \<Longrightarrow> layerRefs lk A h t = 0"
  by (simp add: layerRefs_def claimed_fresh) (simp add: fresh_def)

lemma createAll_idle:
  assumes "createAll (createService fuel lk) ss h = Some (res, h')"
  shows "idle h h'"
proof (rule createAll_rel[where R = idle, OF _ _ _ assms])
  show "\<And>t h r h'. createService fuel lk t h = Some (r, h') \<Longrightarrow> idle h h'"
    by (rule createService_idle)
  show "\<And>h. idle h h" by (simp add: idle_def)
  show "\<And>a b c. idle a b \<Longrightarrow> idle b c \<Longrightarrow> idle a c"
    unfolding idle_def by metis
qed

text \<open>After the loop of \<^verbatim>\<open>start\<close> on a fresh heap without references, whatever its outcome,
  no service of the layer holds more references than the visits of the loop and the
  declared dependencies of the services account for.\<close>

lemma createAll_bound:
  assumes cl: "\<forall>spec t. lk spec = Found t \<longrightarrow> t \<in> set ss"
    and fr: "fresh h"
    and zero: "\<forall>r. useCount (services h r) = 0"
    and run: "createAll (createService fuel lk) ss h = Some (res, h')"
  shows "useCount (services h' t)
           \<le> int (count_list ss t)
             + (\<Sum>u\<in>set ss. int (edgeCount lk (dependencies (services h' u)) t))"
proof (cases "state (services h' t) = Constructed")
  case True
  have rec: "\<forall>s k r k'. s \<in> set ss \<longrightarrow> createService fuel lk s k = Some (r, k') \<longrightarrow>
      (\<forall>x. layerRefs lk (set ss) k' x \<le> layerRefs lk (set ss) k x + (if x = s then 1 else 0))"
    using createService_layerRefs[OF cl finite_set] by blast
  from createAll_layerRefs[OF rec subset_refl run]
  have "layerRefs lk (set ss) h' t \<le> layerRefs lk (set ss) h t + int (count_list ss t)"
    by blast
  with fr have "layerRefs lk (set ss) h' t \<le> int (count_list ss t)"
    by (simp add: layerRefs_fresh)
  with True have "useCount (services h' t) \<le> int (count_list ss t) + claimed lk (set ss) h' t"
    by (simp add: layerRefs_def)
  with claimed_le[OF finite_set, of lk ss h' t] show ?thesis by linarith
next
  case False
  from createAll_idle[OF run] False have "useCount (services h' t) = useCount (services h t)"
    by (simp add: idle_def)
  with zero have "useCount (services h' t) = 0" by simp
  moreover have "0 \<le> (\<Sum>u\<in>set ss. int (edgeCount lk (dependencies (services h' u)) t))"
    by (rule sum_nonneg) simp
  ultimately show ?thesis by simp
qed

section \<open>Recursive destruction\<close>

lemma release_fields:
  "state (services (release s h) r) =
     (if r = s \<and> useCount (services h s) \<le> 1 then Destroyed else state (services h r))"
  "dependencies (services (release s h) r) = dependencies (services h r)"
  "useCount (services (release s h) r) =
     (if r = s then useCount (services h r) - 1 else useCount (services h r))"
  "serviceInstance (services (release s h) r) =
     (if r = s \<and> useCount (services h s) \<le> 1 then None else serviceInstance (services h r))"
  "nextInstance (release s h) = nextInstance h"
  "calls (release s h) =
     (if useCount (services h s) \<le> 1 then
        (case serviceInstance (services h s) of
           None \<Rightarrow> calls h
         | Some i \<Rightarrow> DestructorCall s i # calls h)
      else calls h)"
  by (auto simp: release_def repr_defs split: option.splits)

lemma destroyService_Suc:
  "destroyService (Suc fuel) lk s h =
     (if state (services h s) = Destroyed then Some h
      else destroyDependencies (destroyService fuel lk) lk (dependencies (services h s))
             (release s h))"
  by (auto simp: release_def repr_defs Let_def split: option.splits)

lemma destroyDependencies_rel:
  assumes step: "\<And>t h h'. recur t h = Some h' \<Longrightarrow> R h h'"
    and refl: "\<And>h. R h h"
    and trans: "\<And>a b c. R a b \<Longrightarrow> R b c \<Longrightarrow> R a c"
    and run: "destroyDependencies recur lk ds h = Some h'"
  shows "R h h'"
  using run
proof (induction ds arbitrary: h)
  case Nil
  then show ?case by (simp add: refl)
next
  case (Cons d ds)
  show ?case
  proof (cases "lk (specOf d)")
    case (Found t)
    with Cons.prems obtain h1 where r: "recur t h = Some h1"
      and rest: "destroyDependencies recur lk ds h1 = Some h'"
      by (auto split: option.splits)
    from step[OF r] Cons.IH[OF rest] show ?thesis by (rule trans)
  next
    case NotFound
    with Cons show ?thesis by simp
  next
    case Ambiguous
    with Cons show ?thesis by simp
  qed
qed

lemma destroyService_rel:
  assumes refl: "\<And>h. R h h"
    and trans: "\<And>a b c. R a b \<Longrightarrow> R b c \<Longrightarrow> R a c"
    and step: "\<And>h s. state (services h s) \<noteq> Destroyed \<Longrightarrow> R h (release s h)"
    and run: "destroyService fuel lk s h = Some h'"
  shows "R h h'"
  using run
proof (induction fuel arbitrary: s h h')
  case 0
  then show ?case by simp
next
  case (Suc fuel)
  show ?case
  proof (cases "state (services h s) = Destroyed")
    case True
    with Suc.prems show ?thesis by (simp add: destroyService_Suc refl del: destroyService.simps)
  next
    case False
    with Suc.prems have run: "destroyDependencies (destroyService fuel lk) lk
        (dependencies (services h s)) (release s h) = Some h'"
      by (simp add: destroyService_Suc del: destroyService.simps)
    have "R (release s h) h'" using Suc.IH refl trans run by (rule destroyDependencies_rel)
    with step[OF False] show ?thesis by (rule trans)
  qed
qed

lemma destroyAll_rel:
  assumes step: "\<And>t h h'. recur t h = Some h' \<Longrightarrow> R h h'"
    and refl: "\<And>h. R h h"
    and trans: "\<And>a b c. R a b \<Longrightarrow> R b c \<Longrightarrow> R a c"
    and run: "destroyAll recur ss h = Some h'"
  shows "R h h'"
  using run
proof (induction ss arbitrary: h)
  case Nil
  then show ?case by (simp add: refl)
next
  case (Cons s ss)
  then obtain h1 where r: "recur s h = Some h1" and rest: "destroyAll recur ss h1 = Some h'"
    by (auto split: option.splits)
  from step[OF r] Cons.IH[OF rest] show ?case by (rule trans)
qed

lemma destroy_rel:
  assumes refl: "\<And>h. R h h"
    and trans: "\<And>a b c. R a b \<Longrightarrow> R b c \<Longrightarrow> R a c"
    and step: "\<And>h s. state (services h s) \<noteq> Destroyed \<Longrightarrow> R h (release s h)"
    and run: "destroy fuel L h = Some (L', h')"
  shows "R h h'"
proof -
  from run have all: "destroyAll (destroyService fuel (serviceLookup L)) (allServices L) h = Some h'"
    by (auto simp: destroy_def split: option.splits)
  have "\<And>t h h'. destroyService fuel (serviceLookup L) t h = Some h' \<Longrightarrow> R h h'"
    using refl trans step by (rule destroyService_rel)
  then show ?thesis using refl trans all by (rule destroyAll_rel)
qed

lemma release_remaining:
  assumes "finite A" and "s \<in> A" and "state (services h s) \<noteq> Destroyed"
  shows "remaining A (release s h) < remaining A h"
proof -
  have rest: "(\<Sum>r\<in>A - {s}. holds (services (release s h) r)) = (\<Sum>r\<in>A - {s}. holds (services h r))"
    by (rule sum.cong) (auto simp: holds_def release_fields)
  have "holds (services (release s h) s) < holds (services h s)"
    using assms(3) by (auto simp: holds_def release_fields)
  then show ?thesis
    unfolding remaining_def sum.remove[OF assms(1,2)] rest by simp
qed

lemma release_remaining_le:
  assumes "finite A" and "state (services h s) \<noteq> Destroyed"
  shows "remaining A (release s h) \<le> remaining A h"
proof (cases "s \<in> A")
  case True
  with assms show ?thesis by (simp add: release_remaining less_imp_le)
next
  case False
  have "(\<Sum>r\<in>A. holds (services (release s h) r)) = (\<Sum>r\<in>A. holds (services h r))"
    by (rule sum.cong) (use False in \<open>auto simp: holds_def release_fields\<close>)
  then show ?thesis by (simp add: remaining_def)
qed

lemma destroyService_remaining:
  assumes "destroyService fuel lk s h = Some h'" and "finite A"
  shows "remaining A h' \<le> remaining A h"
  by (rule destroyService_rel[where R = "\<lambda>a b. remaining A b \<le> remaining A a", OF _ _ _ assms(1)])
     (auto intro: release_remaining_le assms(2))

lemma destroyDependencies_total:
  assumes rec: "\<And>t h. t \<in> A \<Longrightarrow> remaining A h < n \<Longrightarrow> \<exists>h'. recur t h = Some h'"
    and mono: "\<And>t h h'. recur t h = Some h' \<Longrightarrow> remaining A h' \<le> remaining A h"
    and cl: "\<forall>spec t. lk spec = Found t \<longrightarrow> t \<in> A"
  shows "remaining A h < n \<Longrightarrow> \<exists>h'. destroyDependencies recur lk ds h = Some h'"
proof (induction ds arbitrary: h)
  case Nil
  then show ?case by simp
next
  case (Cons d ds)
  show ?case
  proof (cases "lk (specOf d)")
    case (Found t)
    with cl have "t \<in> A" by blast
    from rec[OF this Cons.prems] obtain h1 where r: "recur t h = Some h1" by blast
    from mono[OF r] Cons.prems have "remaining A h1 < n" by simp
    from Cons.IH[OF this] r Found show ?thesis by simp
  next
    case NotFound
    with Cons show ?thesis by simp
  next
    case Ambiguous
    with Cons show ?thesis by simp
  qed
qed

text \<open>Recursive destruction comes back when the fuel exceeds the references that are
  still held; it needs no dependency to be resolvable.\<close>

lemma destroyService_total:
  assumes cl: "\<forall>spec t. lk spec = Found t \<longrightarrow> t \<in> A"
    and fin: "finite A"
  shows "s \<in> A \<Longrightarrow> remaining A h < fuel \<Longrightarrow> \<exists>h'. destroyService fuel lk s h = Some h'"
proof (induction fuel arbitrary: s h)
  case 0
  then show ?case by simp
next
  case (Suc fuel)
  show ?case
  proof (cases "state (services h s) = Destroyed")
    case True
    then show ?thesis by (simp add: destroyService_Suc del: destroyService.simps)
  next
    case False
    from fin Suc.prems(1) False have "remaining A (release s h) < remaining A h"
      by (rule release_remaining)
    with Suc.prems(2) have "remaining A (release s h) < fuel" by simp
    have "\<exists>h'. destroyDependencies (destroyService fuel lk) lk (dependencies (services h s))
        (release s h) = Some h'"
    proof (rule destroyDependencies_total[where A = A and n = fuel])
      show "\<And>t h. t \<in> A \<Longrightarrow> remaining A h < fuel \<Longrightarrow> \<exists>h'. destroyService fuel lk t h = Some h'"
        by (rule Suc.IH)
      show "\<And>t h h'. destroyService fuel lk t h = Some h' \<Longrightarrow> remaining A h' \<le> remaining A h"
        by (rule destroyService_remaining[OF _ fin])
    qed (fact cl, fact \<open>remaining A (release s h) < fuel\<close>)
    with False show ?thesis by (simp add: destroyService_Suc del: destroyService.simps)
  qed
qed

lemma destroyAll_total:
  assumes rec: "\<And>t h. t \<in> A \<Longrightarrow> remaining A h < n \<Longrightarrow> \<exists>h'. recur t h = Some h'"
    and mono: "\<And>t h h'. recur t h = Some h' \<Longrightarrow> remaining A h' \<le> remaining A h"
  shows "set ss \<subseteq> A \<Longrightarrow> remaining A h < n \<Longrightarrow> \<exists>h'. destroyAll recur ss h = Some h'"
proof (induction ss arbitrary: h)
  case Nil
  then show ?case by simp
next
  case (Cons s ss)
  then have "s \<in> A" by simp
  from rec[OF this Cons.prems(2)] obtain h1 where r: "recur s h = Some h1" by blast
  from mono[OF r] Cons.prems have "set ss \<subseteq> A" "remaining A h1 < n" by simp_all
  from Cons.IH[OF this] r show ?case by simp
qed

lemma destroy_total:
  assumes "lookupClosed L" and "remaining (set (allServices L)) h < fuel"
  shows "\<exists>h'. destroy fuel L h = Some (L\<lparr>layerState := LayerDestroyed\<rparr>, h')"
proof -
  let ?A = "set (allServices L)"
  have cl: "\<forall>spec t. serviceLookup L spec = Found t \<longrightarrow> t \<in> ?A"
    using assms(1) by (simp add: lookupClosed_def)
  have "\<exists>h'. destroyAll (destroyService fuel (serviceLookup L)) (allServices L) h = Some h'"
  proof (rule destroyAll_total[where A = ?A and n = fuel])
    show "\<And>t h. t \<in> ?A \<Longrightarrow> remaining ?A h < fuel \<Longrightarrow>
        \<exists>h'. destroyService fuel (serviceLookup L) t h = Some h'"
      using cl by (rule destroyService_total) simp
    show "\<And>t h h'. destroyService fuel (serviceLookup L) t h = Some h' \<Longrightarrow>
        remaining ?A h' \<le> remaining ?A h"
      by (rule destroyService_remaining[OF _ finite_set])
  qed (simp_all add: assms(2))
  then show ?thesis by (auto simp: destroy_def)
qed

section \<open>What destruction tears down\<close>

lemma tornDown_refl: "tornDown h h"
  unfolding tornDown_def by blast

lemma tornDown_destroyed:
  "tornDown h h' \<Longrightarrow> state (services h s) = Destroyed \<Longrightarrow> state (services h' s) = Destroyed"
  unfolding tornDown_def by blast

lemma tornDown_alive:
  "tornDown h h' \<Longrightarrow> state (services h' s) \<noteq> Destroyed \<Longrightarrow>
   state (services h' s) = state (services h s) \<and>
   serviceInstance (services h' s) = serviceInstance (services h s) \<and>
   useCount (services h' s) \<le> useCount (services h s)"
  unfolding tornDown_def by blast

lemma tornDown_calls:
  "tornDown h h' \<Longrightarrow> c \<in> set (calls h) \<Longrightarrow> c \<in> set (calls h')"
  unfolding tornDown_def by blast

lemma tornDown_destructor:
  "tornDown h h' \<Longrightarrow> state (services h s) \<noteq> Destroyed \<Longrightarrow>
   state (services h' s) = Destroyed \<Longrightarrow> serviceInstance (services h s) = Some i \<Longrightarrow>
   DestructorCall s i \<in> set (calls h')"
  unfolding tornDown_def by blast

lemma tornDown_trans:
  assumes "tornDown a b" and "tornDown b c"
  shows "tornDown a c"
  unfolding tornDown_def
proof (intro conjI allI impI)
  fix s
  assume "state (services a s) = Destroyed"
  then have "state (services b s) = Destroyed" by (rule tornDown_destroyed[OF assms(1)])
  then show "state (services c s) = Destroyed" by (rule tornDown_destroyed[OF assms(2)])
next
  fix s
  assume c: "state (services c s) \<noteq> Destroyed"
  note cb = tornDown_alive[OF assms(2) c]
  from c tornDown_destroyed[OF assms(2), of s] have b: "state (services b s) \<noteq> Destroyed"
    by blast
  note ba = tornDown_alive[OF assms(1) b]
  from cb ba show "state (services c s) = state (services a s)" by simp
  from cb ba show "serviceInstance (services c s) = serviceInstance (services a s)" by simp
  from cb ba show "useCount (services c s) \<le> useCount (services a s)" by simp
next
  fix c' assume "c' \<in> set (calls a)"
  then have "c' \<in> set (calls b)" by (rule tornDown_calls[OF assms(1)])
  then show "c' \<in> set (calls c)" by (rule tornDown_calls[OF assms(2)])
next
  fix s i
  assume h: "state (services a s) \<noteq> Destroyed \<and> state (services c s) = Destroyed \<and>
            serviceInstance (services a s) = Some i"
  show "DestructorCall s i \<in> set (calls c)"
  proof (cases "state (services b s) = Destroyed")
    case True
    with h have "DestructorCall s i \<in> set (calls b)"
      by (intro tornDown_destructor[OF assms(1)]) simp_all
    then show ?thesis by (rule tornDown_calls[OF assms(2)])
  next
    case False
    from tornDown_alive[OF assms(1) False] h have "serviceInstance (services b s) = Some i"
      by simp
    with False h show ?thesis by (intro tornDown_destructor[OF assms(2)]) simp_all
  qed
qed

lemma tornDown_release:
  assumes "state (services h s) \<noteq> Destroyed"
  shows "tornDown h (release s h)"
  unfolding tornDown_def
proof (intro conjI allI impI)
  fix r
  assume "state (services h r) = Destroyed"
  then show "state (services (release s h) r) = Destroyed" by (simp add: release_fields)
next
  fix r
  assume a: "state (services (release s h) r) \<noteq> Destroyed"
  then have "\<not> (r = s \<and> useCount (services h s) \<le> 1)"
    by (auto simp: release_fields)
  then show "state (services (release s h) r) = state (services h r)"
    and "serviceInstance (services (release s h) r) = serviceInstance (services h r)"
    by (auto simp: release_fields)
  show "useCount (services (release s h) r) \<le> useCount (services h r)"
    by (simp add: release_fields)
next
  fix c assume "c \<in> set (calls h)"
  then show "c \<in> set (calls (release s h))"
    by (simp add: release_fields split: option.splits)
next
  fix r i
  assume a: "state (services h r) \<noteq> Destroyed \<and> state (services (release s h) r) = Destroyed \<and>
            serviceInstance (services h r) = Some i"
  then have "r = s" "useCount (services h s) \<le> 1"
    by (auto simp: release_fields split: if_splits)
  with a show "DestructorCall r i \<in> set (calls (release s h))"
    by (simp add: release_fields)
qed

lemma destroyService_tornDown:
  assumes "destroyService fuel lk s h = Some h'"
  shows "tornDown h h'"
  using tornDown_refl tornDown_trans tornDown_release assms by (rule destroyService_rel)

text \<open>A visit to a service that holds at most one reference destroys it.\<close>

lemma destroyService_last_reference:
  assumes run: "destroyService fuel lk s h = Some h'"
    and one: "state (services h s) = Destroyed \<or> useCount (services h s) \<le> 1"
  shows "state (services h' s) = Destroyed"
proof (cases fuel)
  case 0
  with run show ?thesis by simp
next
  case (Suc n)
  show ?thesis
  proof (cases "state (services h s) = Destroyed")
    case True
    with run Suc show ?thesis by (simp add: destroyService_Suc del: destroyService.simps)
  next
    case False
    with run Suc have rest: "destroyDependencies (destroyService n lk) lk
        (dependencies (services h s)) (release s h) = Some h'"
      by (simp add: destroyService_Suc del: destroyService.simps)
    have "tornDown (release s h) h'"
      using destroyService_tornDown tornDown_refl tornDown_trans rest
      by (rule destroyDependencies_rel)
    moreover from False one have "state (services (release s h) s) = Destroyed"
      by (simp add: release_fields)
    ultimately show ?thesis by (blast intro: tornDown_destroyed)
  qed
qed

lemma destroyAll_last_reference:
  assumes "destroyAll (destroyService fuel lk) ss h = Some h'"
  shows "\<forall>s\<in>set ss. state (services h s) = Destroyed \<or> useCount (services h s) \<le> 1 \<longrightarrow>
           state (services h' s) = Destroyed"
  using assms
proof (induction ss arbitrary: h)
  case Nil
  then show ?case by simp
next
  case (Cons s ss)
  then obtain h1 where r: "destroyService fuel lk s h = Some h1"
    and rest: "destroyAll (destroyService fuel lk) ss h1 = Some h'"
    by (auto split: option.splits)
  have t1: "tornDown h h1" using r by (rule destroyService_tornDown)
  have t2: "tornDown h1 h'"
    using destroyService_tornDown tornDown_refl tornDown_trans rest by (rule destroyAll_rel)
  show ?case
  proof
    fix u assume u: "u \<in> set (s # ss)"
    show "state (services h u) = Destroyed \<or> useCount (services h u) \<le> 1 \<longrightarrow>
           state (services h' u) = Destroyed"
    proof
      assume one: "state (services h u) = Destroyed \<or> useCount (services h u) \<le> 1"
      show "state (services h' u) = Destroyed"
      proof (cases "u = s")
        case True
        with destroyService_last_reference[OF r] one have "state (services h1 s) = Destroyed"
          by simp
        with t2 True show ?thesis by (blast intro: tornDown_destroyed)
      next
        case False
        with u have uin: "u \<in> set ss" by simp
        have "state (services h1 u) = Destroyed \<or> useCount (services h1 u) \<le> 1"
        proof (cases "state (services h1 u) = Destroyed")
          case True
          then show ?thesis by simp
        next
          case alive: False
          with tornDown_destroyed[OF t1, of u] tornDown_alive[OF t1, of u]
          have "state (services h u) \<noteq> Destroyed"
            "useCount (services h1 u) \<le> useCount (services h u)"
            by blast+
          with one show ?thesis by simp
        qed
        with Cons.IH[OF rest] uin show ?thesis by blast
      qed
    qed
  qed
qed

section \<open>The life of a shared provider\<close>

lemma destructorRuns_simps:
  "destructorRuns [] = []"
  "destructorRuns (DestructorCall s i # cs) = s # destructorRuns cs"
  "destructorRuns (ConstructorCall s refs i snap # cs) = destructorRuns cs"
  by (simp_all add: destructorRuns_def)

lemma create_case:
  "(case create s refs h of (i, h') \<Rightarrow> f i h') = f (nextInstance h) (snd (create s refs h))"
  by (simp add: create_def Let_def)

lemma scenario_s1_s2_p:
  assumes ne: "s1 \<noteq> s2" "s1 \<noteq> p" "s2 \<noteq> p"
    and deps: "dependencies (services h s1) = [d1]" "dependencies (services h s2) = [d2]"
      "dependencies (services h p) = []"
    and lk: "serviceLookup L (specOf d1) = Found p" "serviceLookup L (specOf d2) = Found p"
    and fresh: "fresh h" and ns: "layerState L = NotStarted"
    and all: "allServices L = [s1, s2, p]"
  shows "sharingLifecycle (Suc (Suc n)) (Suc (Suc m)) L h s1 s2 p [p, s2, s1]"
proof -
  have ne': "s2 \<noteq> s1" "p \<noteq> s1" "p \<noteq> s2" using ne by auto
  have st: "\<And>r. state (services h r) = NotConstructed" using fresh by (simp add: fresh_def)
  show ?thesis
    unfolding sharingLifecycle_def
    by (simp add: start_def destroy_def ns all st deps lk ne ne' mustGet_def
        getInstanceOrThrow_def addRef_fields create_fields beforeCreate_fields release_fields
        destroyService_Suc destructorRuns_simps Let_def create_case
        del: destroyService.simps)
qed

lemma scenario_s1_p_s2:
  assumes ne: "s1 \<noteq> s2" "s1 \<noteq> p" "s2 \<noteq> p"
    and deps: "dependencies (services h s1) = [d1]" "dependencies (services h s2) = [d2]"
      "dependencies (services h p) = []"
    and lk: "serviceLookup L (specOf d1) = Found p" "serviceLookup L (specOf d2) = Found p"
    and fresh: "fresh h" and ns: "layerState L = NotStarted"
    and all: "allServices L = [s1, p, s2]"
  shows "sharingLifecycle (Suc (Suc n)) (Suc (Suc m)) L h s1 s2 p [p, s2, s1]"
proof -
  have ne': "s2 \<noteq> s1" "p \<noteq> s1" "p \<noteq> s2" using ne by auto
  have st: "\<And>r. state (services h r) = NotConstructed" using fresh by (simp add: fresh_def)
  show ?thesis
    unfolding sharingLifecycle_def
    by (simp add: start_def destroy_def ns all st deps lk ne ne' mustGet_def
        getInstanceOrThrow_def addRef_fields create_fields beforeCreate_fields release_fields
        destroyService_Suc destructorRuns_simps Let_def create_case
        del: destroyService.simps)
qed

lemma scenario_p_s1_s2:
  assumes ne: "s1 \<noteq> s2" "s1 \<noteq> p" "s2 \<noteq> p"
    and deps: "dependencies (services h s1) = [d1]" "dependencies (services h s2) = [d2]"
      "dependencies (services h p) = []"
    and lk: "serviceLookup L (specOf d1) = Found p" "serviceLookup L (specOf d2) = Found p"
    and fresh: "fresh h" and ns: "layerState L = NotStarted"
    and all: "allServices L = [p, s1, s2]"
  shows "sharingLifecycle (Suc (Suc n)) (Suc (Suc m)) L h s1 s2 p [p, s2, s1]"
proof -
  have ne': "s2 \<noteq> s1" "p \<noteq> s1" "p \<noteq> s2" using ne by auto
  have st: "\<And>r. state (services h r) = NotConstructed" using fresh by (simp add: fresh_def)
  show ?thesis
    unfolding sharingLifecycle_def
    by (simp add: start_def destroy_def ns all st deps lk ne ne' mustGet_def
        getInstanceOrThrow_def addRef_fields create_fields beforeCreate_fields release_fields
        destroyService_Suc destructorRuns_simps Let_def create_case
        del: destroyService.simps)
qed

lemma three_orders:
  assumes "distinct xs" and "set xs = {a, b, c}" and "a \<noteq> b" and "a \<noteq> c" and "b \<noteq> c"
  shows "xs = [a, b, c] \<or> xs = [a, c, b] \<or> xs = [c, a, b] \<or>
         xs = [b, a, c] \<or> xs = [b, c, a] \<or> xs = [c, b, a]"
proof -
  from assms have "length xs = 3" by (metis distinct_card card_3_iff)
  then obtain x y z where xs: "xs = [x, y, z]"
    by (auto simp: numeral_3_eq_3 length_Suc_conv)
  from assms(1) xs have d: "x \<noteq> y" "x \<noteq> z" "y \<noteq> z" by auto
  from assms(2) xs have s: "{x, y, z} = {a, b, c}" by simp
  then have "x \<in> {a, b, c}" "y \<in> {a, b, c}" "z \<in> {a, b, c}" by blast+
  with d xs show ?thesis by auto
qed

section \<open>Destruction of a whole layer\<close>

lemma credited_bound:
  "credited lk A h U x \<Longrightarrow> t \<in> A \<Longrightarrow> state (services h t) \<noteq> Destroyed \<Longrightarrow>
   useCount (services h t)
     \<le> int (x t) + (\<Sum>u\<in>U. int (edgeCount lk (dependencies (services h u)) t))"
  unfolding credited_def by blast

lemma credited_low:
  "credited lk A h U x \<Longrightarrow> t \<in> A \<Longrightarrow> state (services h t) \<noteq> Destroyed \<Longrightarrow> t \<notin> U \<Longrightarrow>
   1 \<le> useCount (services h t)"
  unfolding credited_def by blast

lemma credited_alive:
  "credited lk A h U x \<Longrightarrow> u \<in> U \<Longrightarrow> state (services h u) \<noteq> Destroyed"
  unfolding credited_def by blast

lemma credited_subset: "credited lk A h U x \<Longrightarrow> U \<subseteq> A"
  unfolding credited_def by blast

lemma credited_release:
  assumes fin: "finite A" and s: "s \<in> A" and alive: "state (services h s) \<noteq> Destroyed"
    and inv: "credited lk A h U (x(s := Suc (x s)))"
  shows "credited lk A (release s h) (U - {s})
           (\<lambda>t. x t + edgeCount lk (dependencies (services h s)) t)"
  unfolding credited_def
proof (intro conjI ballI impI)
  from inv have U: "U \<subseteq> A" and Ua: "\<forall>u\<in>U. state (services h u) \<noteq> Destroyed"
    and bound: "\<forall>t\<in>A. state (services h t) \<noteq> Destroyed \<longrightarrow>
        useCount (services h t)
          \<le> int ((x(s := Suc (x s))) t) + (\<Sum>u\<in>U. int (edgeCount lk (dependencies (services h u)) t))"
    and low: "\<forall>t\<in>A. state (services h t) \<noteq> Destroyed \<and> t \<notin> U \<longrightarrow> 1 \<le> useCount (services h t)"
    by (simp_all add: credited_def)
  from U fin have finU: "finite U" by (rule finite_subset)
  show "U - {s} \<subseteq> A" using U by blast
  have split: "(\<Sum>u\<in>U. int (edgeCount lk (dependencies (services h u)) t))
                 \<le> int (edgeCount lk (dependencies (services h s)) t)
                    + (\<Sum>u\<in>U - {s}. int (edgeCount lk (dependencies (services h u)) t))" for t
  proof (cases "s \<in> U")
    case True
    from sum.remove[OF finU True, of "\<lambda>u. int (edgeCount lk (dependencies (services h u)) t)"]
    show ?thesis by simp
  next
    case False
    then have "U - {s} = U" by blast
    then show ?thesis by simp
  qed
  {
    fix u assume "u \<in> U - {s}"
    with Ua show "state (services (release s h) u) \<noteq> Destroyed"
      by (simp add: release_fields)
  }
  {
    fix t assume t: "t \<in> A" and a: "state (services (release s h) t) \<noteq> Destroyed"
    then have at: "state (services h t) \<noteq> Destroyed"
      by (auto simp: release_fields split: if_splits)
    from bound t at have b: "useCount (services h t)
          \<le> int ((x(s := Suc (x s))) t) + (\<Sum>u\<in>U. int (edgeCount lk (dependencies (services h u)) t))"
      by blast
    show "useCount (services (release s h) t)
          \<le> int (x t + edgeCount lk (dependencies (services h s)) t)
            + (\<Sum>u\<in>U - {s}. int (edgeCount lk (dependencies (services (release s h) u)) t))"
      using b split[of t] by (auto simp: release_fields)
  }
  {
    fix t assume t: "t \<in> A"
      and a: "state (services (release s h) t) \<noteq> Destroyed \<and> t \<notin> U - {s}"
    show "1 \<le> useCount (services (release s h) t)"
    proof (cases "t = s")
      case True
      with a have "\<not> useCount (services h s) \<le> 1" by (auto simp: release_fields)
      with True show ?thesis by (simp add: release_fields)
    next
      case False
      with a have "state (services h t) \<noteq> Destroyed" "t \<notin> U"
        by (auto simp: release_fields)
      with low t False show ?thesis by (simp add: release_fields)
    qed
  }
qed

lemma credited_mono:
  assumes "credited lk A h U x" and "\<And>t. x t \<le> y t"
  shows "credited lk A h U y"
  unfolding credited_def
proof (intro conjI ballI impI)
  from assms(1) show "U \<subseteq> A" by (rule credited_subset)
  fix u assume "u \<in> U"
  with assms(1) show "state (services h u) \<noteq> Destroyed" by (rule credited_alive)
next
  fix t assume "t \<in> A" "state (services h t) \<noteq> Destroyed"
  with assms(1) have "useCount (services h t)
          \<le> int (x t) + (\<Sum>u\<in>U. int (edgeCount lk (dependencies (services h u)) t))"
    by (rule credited_bound)
  with assms(2)[of t] show "useCount (services h t)
          \<le> int (y t) + (\<Sum>u\<in>U. int (edgeCount lk (dependencies (services h u)) t))"
    by simp
next
  fix t assume "t \<in> A" "state (services h t) \<noteq> Destroyed \<and> t \<notin> U"
  with assms(1) show "1 \<le> useCount (services h t)" by (blast intro: credited_low)
qed

lemma destroyDependencies_credit:
  assumes rec: "\<And>t h h' U x. t \<in> A \<Longrightarrow> recur t h = Some h' \<Longrightarrow>
        credited lk A h U (x(t := Suc (x t))) \<Longrightarrow> \<exists>U'. U' \<subseteq> U \<and> t \<notin> U' \<and> credited lk A h' U' x"
    and cl: "\<forall>spec t. lk spec = Found t \<longrightarrow> t \<in> A"
  shows "destroyDependencies recur lk ds h = Some h' \<Longrightarrow>
         credited lk A h U (\<lambda>t. x t + edgeCount lk ds t) \<Longrightarrow>
         \<exists>U'. U' \<subseteq> U \<and> credited lk A h' U' x"
proof (induction ds arbitrary: h U)
  case Nil
  then show ?case by (auto simp: edgeCount_def)
next
  case (Cons d ds)
  show ?case
  proof (cases "lk (specOf d)")
    case (Found t)
    with cl have tA: "t \<in> A" by blast
    from Cons.prems(1) Found obtain h1 where r: "recur t h = Some h1"
      and rest: "destroyDependencies recur lk ds h1 = Some h'"
      by (auto split: option.splits)
    have eq: "(\<lambda>u. x u + edgeCount lk (d # ds) u)
                = (\<lambda>u. x u + edgeCount lk ds u)(t := Suc (x t + edgeCount lk ds t))"
      using Found by (auto simp: edgeCount_Cons fun_eq_iff)
    from Cons.prems(2) have "credited lk A h U ((\<lambda>u. x u + edgeCount lk ds u)(t := Suc (x t + edgeCount lk ds t)))"
      unfolding eq .
    from rec[OF tA r this] obtain U1 where U1: "U1 \<subseteq> U"
      "credited lk A h1 U1 (\<lambda>u. x u + edgeCount lk ds u)" by blast
    from Cons.IH[OF rest U1(2)] obtain U' where "U' \<subseteq> U1" "credited lk A h' U' x" by blast
    with U1(1) show ?thesis by blast
  next
    case NotFound
    with Cons.prems have "destroyDependencies recur lk ds h = Some h'"
      "credited lk A h U (\<lambda>t. x t + edgeCount lk ds t)"
      by (simp_all add: edgeCount_Cons)
    then show ?thesis by (rule Cons.IH)
  next
    case Ambiguous
    with Cons.prems have "destroyDependencies recur lk ds h = Some h'"
      "credited lk A h U (\<lambda>t. x t + edgeCount lk ds t)"
      by (simp_all add: edgeCount_Cons)
    then show ?thesis by (rule Cons.IH)
  qed
qed

lemma credited_destroyed:
  assumes "credited lk A h U (x(s := Suc (x s)))" and "state (services h s) = Destroyed"
  shows "credited lk A h U x"
  unfolding credited_def
proof (intro conjI ballI impI)
  from assms(1) show "U \<subseteq> A" by (rule credited_subset)
  fix u assume "u \<in> U"
  with assms(1) show "state (services h u) \<noteq> Destroyed" by (rule credited_alive)
next
  fix t assume t: "t \<in> A" "state (services h t) \<noteq> Destroyed"
  with assms(2) have "t \<noteq> s" by auto
  with credited_bound[OF assms(1) t] show "useCount (services h t)
          \<le> int (x t) + (\<Sum>u\<in>U. int (edgeCount lk (dependencies (services h u)) t))"
    by simp
next
  fix t assume "t \<in> A" "state (services h t) \<noteq> Destroyed \<and> t \<notin> U"
  with assms(1) show "1 \<le> useCount (services h t)" by (blast intro: credited_low)
qed

lemma destroyService_credit:
  assumes cl: "\<forall>spec t. lk spec = Found t \<longrightarrow> t \<in> A"
    and fin: "finite A"
  shows "s \<in> A \<Longrightarrow> destroyService fuel lk s h = Some h' \<Longrightarrow>
         credited lk A h U (x(s := Suc (x s))) \<Longrightarrow>
         \<exists>U'. U' \<subseteq> U \<and> s \<notin> U' \<and> credited lk A h' U' x"
proof (induction fuel arbitrary: s h h' U x)
  case 0
  then show ?case by simp
next
  case (Suc fuel)
  show ?case
  proof (cases "state (services h s) = Destroyed")
    case True
    with Suc.prems(2) have h': "h' = h" by (simp add: destroyService_Suc del: destroyService.simps)
    from Suc.prems(3) have "\<forall>u\<in>U. state (services h u) \<noteq> Destroyed"
      by (simp add: credited_def)
    with True have "s \<notin> U" by blast
    moreover have "credited lk A h U x"
      using Suc.prems(3) True by (rule credited_destroyed)
    ultimately show ?thesis unfolding h' by (intro exI[of _ U]) simp
  next
    case False
    with Suc.prems(2) have run: "destroyDependencies (destroyService fuel lk) lk
        (dependencies (services h s)) (release s h) = Some h'"
      by (simp add: destroyService_Suc del: destroyService.simps)
    from fin Suc.prems(1) False Suc.prems(3)
    have c: "credited lk A (release s h) (U - {s})
           (\<lambda>t. x t + edgeCount lk (dependencies (services h s)) t)"
      by (rule credited_release)
    have "\<exists>U'. U' \<subseteq> U - {s} \<and> credited lk A h' U' x"
      using Suc.IH cl run c by (rule destroyDependencies_credit)
    then obtain U' where "U' \<subseteq> U - {s}" "credited lk A h' U' x" by (elim exE conjE)
    then show ?thesis by (intro exI[of _ U']) auto
  qed
qed

lemma destroyAll_credit:
  assumes rec: "\<And>t h h' U x. t \<in> A \<Longrightarrow> recur t h = Some h' \<Longrightarrow>
        credited lk A h U (x(t := Suc (x t))) \<Longrightarrow> \<exists>U'. U' \<subseteq> U \<and> t \<notin> U' \<and> credited lk A h' U' x"
  shows "set ss \<subseteq> A \<Longrightarrow> destroyAll recur ss h = Some h' \<Longrightarrow>
         credited lk A h U (\<lambda>t. x t + count_list ss t) \<Longrightarrow>
         \<exists>U'. U' \<subseteq> U \<and> U' \<inter> set ss = {} \<and> credited lk A h' U' x"
proof (induction ss arbitrary: h U)
  case Nil
  then show ?case by auto
next
  case (Cons s ss)
  from Cons.prems(1) have sA: "s \<in> A" and ssA: "set ss \<subseteq> A" by simp_all
  from Cons.prems(2) obtain h1 where r: "recur s h = Some h1"
    and rest: "destroyAll recur ss h1 = Some h'"
    by (auto split: option.splits)
  have eq: "(\<lambda>t. x t + count_list (s # ss) t)
              = (\<lambda>t. x t + count_list ss t)(s := Suc (x s + count_list ss s))"
    by (auto simp: fun_eq_iff)
  from Cons.prems(3) have "credited lk A h U ((\<lambda>t. x t + count_list ss t)(s := Suc (x s + count_list ss s)))"
    unfolding eq .
  from rec[OF sA r this] obtain U1 where U1: "U1 \<subseteq> U" "s \<notin> U1"
    "credited lk A h1 U1 (\<lambda>t. x t + count_list ss t)" by blast
  from Cons.IH[OF ssA rest U1(3)] obtain U' where "U' \<subseteq> U1" "U' \<inter> set ss = {}"
    "credited lk A h' U' x" by blast
  with U1(1,2) show ?case by (intro exI[of _ U']) auto
qed

text \<open>When no service holds more references than the layer's own visits and the declared
  dependencies of the services account for, \<^verbatim>\<open>destroy\<close> leaves no service of the layer
  alive.\<close>

lemma destroy_all_destroyed:
  assumes closed: "lookupClosed L"
    and alive: "\<forall>t\<in>set (allServices L). state (services h t) \<noteq> Destroyed"
    and bound: "\<forall>t\<in>set (allServices L).
        useCount (services h t)
          \<le> int (count_list (allServices L) t)
            + (\<Sum>u\<in>set (allServices L).
                 int (edgeCount (serviceLookup L) (dependencies (services h u)) t))"
    and run: "destroy fuel L h = Some (L', h')"
  shows "\<forall>s\<in>set (allServices L). state (services h' s) = Destroyed"
proof -
  let ?lk = "serviceLookup L" and ?A = "set (allServices L)"
  have cl: "\<forall>spec t. ?lk spec = Found t \<longrightarrow> t \<in> ?A"
    using closed by (simp add: lookupClosed_def)
  from run have all: "destroyAll (destroyService fuel ?lk) (allServices L) h = Some h'"
    by (auto simp: destroy_def split: option.splits)
  have init: "credited ?lk ?A h ?A (\<lambda>t. 0 + count_list (allServices L) t)"
    using alive bound by (simp add: credited_def)
  have "\<exists>U'. U' \<subseteq> ?A \<and> U' \<inter> ?A = {} \<and> credited ?lk ?A h' U' (\<lambda>t. 0)"
  proof (rule destroyAll_credit[OF _ _ all init])
    show "\<And>t h h' U x. t \<in> ?A \<Longrightarrow> destroyService fuel ?lk t h = Some h' \<Longrightarrow>
        credited ?lk ?A h U (x(t := Suc (x t))) \<Longrightarrow>
        \<exists>U'. U' \<subseteq> U \<and> t \<notin> U' \<and> credited ?lk ?A h' U' x"
      using cl finite_set by (rule destroyService_credit)
  qed simp
  then obtain U' where U': "U' \<subseteq> ?A" "U' \<inter> ?A = {}" and c: "credited ?lk ?A h' U' (\<lambda>t. 0)"
    by (elim exE conjE)
  from U' have e: "U' = {}" by blast
  show ?thesis
  proof (intro ballI, rule ccontr)
    fix s assume s: "s \<in> ?A" and a: "state (services h' s) \<noteq> Destroyed"
    from credited_bound[OF c s a] have "useCount (services h' s) \<le> 0" unfolding e by simp
    moreover from credited_low[OF c s a] have "1 \<le> useCount (services h' s)" unfolding e by simp
    ultimately show False by simp
  qed
qed

section \<open>Destruction after construction\<close>

text \<open>\<^verbatim>\<open>destroy\<close> after \<^verbatim>\<open>start\<close>, whether \<^verbatim>\<open>start\<close> has succeeded or failed, leaves every service
  of the layer destroyed.\<close>

lemma start_destroy_all_destroyed:
  assumes closed: "lookupClosed L"
    and fr: "fresh h"
    and zero: "\<forall>r. useCount (services h r) = 0"
    and st: "start fuel L h = Some (res, L', h')"
    and de: "destroy fuel' L' h' = Some (L'', h'')"
  shows "\<forall>s\<in>set (allServices L). state (services h'' s) = Destroyed"
proof -
  let ?lk = "serviceLookup L" and ?ss = "allServices L"
  have cl: "\<forall>spec t. ?lk spec = Found t \<longrightarrow> t \<in> set ?ss"
    using closed by (simp add: lookupClosed_def)
  from st have same: "allServices L' = ?ss" "serviceLookup L' = ?lk"
    by (cases rule: start_cases; simp)+
  with closed have closed': "lookupClosed L'" by (simp add: lookupClosed_def)
  from start_wellFormed[OF st fresh_wellFormed[OF fr]]
  have alive: "\<forall>t\<in>set (allServices L'). state (services h' t) \<noteq> Destroyed"
    by (simp add: wellFormed_def)
  have bound: "\<forall>t\<in>set (allServices L'). useCount (services h' t)
          \<le> int (count_list (allServices L') t)
            + (\<Sum>u\<in>set (allServices L').
                 int (edgeCount (serviceLookup L') (dependencies (services h' u)) t))"
    unfolding same
  proof
    fix t assume "t \<in> set ?ss"
    from st show "useCount (services h' t)
          \<le> int (count_list ?ss t) + (\<Sum>u\<in>set ?ss. int (edgeCount ?lk (dependencies (services h' u)) t))"
    proof (cases rule: start_cases)
      case guard
      have "0 \<le> (\<Sum>u\<in>set ?ss. int (edgeCount ?lk (dependencies (services h u)) t))"
        by (rule sum_nonneg) simp
      with guard zero show ?thesis by simp
    next
      case (failed e)
      from createAll_bound[OF cl fr zero failed(2)] show ?thesis .
    next
      case started
      from createAll_bound[OF cl fr zero started(2)] show ?thesis .
    qed
  qed
  from destroy_all_destroyed[OF closed' alive bound de] same show ?thesis by simp
qed

section \<open>References taken by destruction\<close>

lemma destroyDependencies_foundServices:
  "destroyDependencies recur lk ds h = destroyAll recur (foundServices lk ds) h"
proof (induction ds arbitrary: h)
  case Nil
  show ?case by (simp add: foundServices_def)
next
  case (Cons d ds)
  have tl: "foundServices lk (d # ds)
      = (case lk (specOf d) of Found t \<Rightarrow> [t] | _ \<Rightarrow> []) @ foundServices lk ds"
    by (simp add: foundServices_def)
  show ?case
  proof (cases "lk (specOf d)")
    case (Found t)
    with Cons.IH show ?thesis by (simp add: tl split: option.splits)
  next
    case NotFound
    with Cons.IH show ?thesis by (simp add: tl)
  next
    case Ambiguous
    with Cons.IH show ?thesis by (simp add: tl)
  qed
qed

lemma released_refl: "released h h"
  unfolding released_def by simp

lemma released_le: "released h h' \<Longrightarrow> useCount (services h' r) \<le> useCount (services h r)"
  unfolding released_def by blast

lemma released_destroyed:
  "released h h' \<Longrightarrow> state (services h r) = Destroyed \<Longrightarrow> state (services h' r) = Destroyed"
  unfolding released_def by blast

lemma released_less:
  "released h h' \<Longrightarrow> state (services h r) \<noteq> Destroyed \<Longrightarrow> state (services h' r) = Destroyed
   \<Longrightarrow> useCount (services h' r) < useCount (services h r)"
  unfolding released_def by blast

lemma released_trans:
  assumes ab: "released a b" and bc: "released b c"
  shows "released a c"
  unfolding released_def
proof (intro allI conjI impI)
  fix r
  from released_le[OF ab, of r] released_le[OF bc, of r]
  show "useCount (services c r) \<le> useCount (services a r)" by simp
  show "state (services c r) = Destroyed" if "state (services a r) = Destroyed"
    using that ab bc by (blast intro: released_destroyed)
  show "useCount (services c r) < useCount (services a r)"
    if "state (services a r) \<noteq> Destroyed \<and> state (services c r) = Destroyed"
  proof (cases "state (services b r) = Destroyed")
    case True
    with that ab have "useCount (services b r) < useCount (services a r)"
      by (blast intro: released_less)
    with released_le[OF bc, of r] show ?thesis by simp
  next
    case False
    with that bc have "useCount (services c r) < useCount (services b r)"
      by (blast intro: released_less)
    with released_le[OF ab, of r] show ?thesis by simp
  qed
qed

lemma released_release: "state (services h s) \<noteq> Destroyed \<Longrightarrow> released h (release s h)"
  by (simp add: released_def release_fields)

lemma destroyService_released:
  assumes "destroyService fuel lk s h = Some h'"
  shows "released h h'"
  using released_refl released_trans released_release assms by (rule destroyService_rel)

text \<open>A visit of a living service takes one of its references.\<close>

lemma destroyService_takes:
  assumes run: "destroyService fuel lk s h = Some h'"
    and alive: "state (services h s) \<noteq> Destroyed"
  shows "useCount (services h' s) < useCount (services h s)"
proof (cases fuel)
  case 0
  with run show ?thesis by simp
next
  case (Suc n)
  with run alive have "destroyDependencies (destroyService n lk) lk (dependencies (services h s))
      (release s h) = Some h'"
    by (simp add: destroyService_Suc del: destroyService.simps)
  then have "released (release s h) h'"
    using destroyService_released released_refl released_trans
    by (rule destroyDependencies_rel[rotated 3])
  from released_le[OF this, of s] show ?thesis by (simp add: release_fields)
qed

text \<open>A loop of visits takes a reference of every service it lists that is alive when the
  loop begins.\<close>

lemma destroyAll_takes:
  assumes rel: "\<forall>t h h'. recur t h = Some h' \<longrightarrow> released h h'"
    and takes: "\<forall>t h h'. recur t h = Some h' \<longrightarrow> state (services h t) \<noteq> Destroyed \<longrightarrow>
        useCount (services h' t) < useCount (services h t)"
  shows "destroyAll recur ts h = Some h' \<Longrightarrow> t \<in> set ts \<Longrightarrow>
         state (services h t) \<noteq> Destroyed \<Longrightarrow>
         useCount (services h' t) < useCount (services h t)"
proof (induction ts arbitrary: h)
  case Nil
  then show ?case by simp
next
  case (Cons u ts)
  from Cons.prems(1) obtain h1 where u: "recur u h = Some h1"
    and rest: "destroyAll recur ts h1 = Some h'"
    by (auto split: option.splits)
  from rel u have r1: "released h h1" by blast
  have r2: "released h1 h'"
    using rest
  proof (rule destroyAll_rel[rotated 3])
    show "\<And>t h h'. recur t h = Some h' \<Longrightarrow> released h h'" using rel by blast
  qed (rule released_refl, rule released_trans)
  show ?case
  proof (cases "state (services h1 t) = Destroyed")
    case True
    from released_less[OF r1 Cons.prems(3) True] released_le[OF r2, of t]
    show ?thesis by simp
  next
    case False
    show ?thesis
    proof (cases "t = u")
      case True
      with takes u Cons.prems(3) have "useCount (services h1 t) < useCount (services h t)"
        by blast
      with released_le[OF r2, of t] show ?thesis by simp
    next
      case ne: False
      with Cons.prems(2) have "t \<in> set ts" by simp
      from Cons.IH[OF rest this False] released_le[OF r1, of t] show ?thesis by simp
    qed
  qed
qed

text \<open>Destruction of a living service takes a reference of the service and of every
  living provider that one of its declared dependencies resolves to.\<close>

lemma destroyService_takes_providers:
  assumes run: "destroyService fuel lk s h = Some h'"
    and alive: "state (services h s) \<noteq> Destroyed"
    and t: "t \<in> set (foundServices lk (dependencies (services h s)))"
    and talive: "state (services h t) \<noteq> Destroyed"
  shows "useCount (services h' t) < useCount (services h t)"
proof (cases "t = s")
  case True
  with destroyService_takes[OF run alive] show ?thesis by simp
next
  case False
  obtain n where n: "fuel = Suc n" using run by (cases fuel) simp_all
  from run alive have all: "destroyAll (destroyService n lk)
      (foundServices lk (dependencies (services h s))) (release s h) = Some h'"
    unfolding n
    by (simp add: destroyService_Suc destroyDependencies_foundServices del: destroyService.simps)
  have "useCount (services h' t) < useCount (services (release s h) t)"
  proof (rule destroyAll_takes[OF _ _ all t])
    show "\<forall>t h h'. destroyService n lk t h = Some h' \<longrightarrow> released h h'"
      using destroyService_released by blast
    show "\<forall>t h h'. destroyService n lk t h = Some h' \<longrightarrow> state (services h t) \<noteq> Destroyed \<longrightarrow>
        useCount (services h' t) < useCount (services h t)"
      using destroyService_takes by blast
    from talive False show "state (services (release s h) t) \<noteq> Destroyed"
      by (simp add: release_fields)
  qed
  with False show ?thesis by (simp add: release_fields)
qed

section \<open>Facts about the example configurations\<close>

lemmas sharing_defs = sharingLayer_def newServiceLayer_def freshHeap_def freshService_def
  sharingDeps_def sharingLookup_def needs_def mustGet_def specOf_def

lemma sharing_start:
  "start 2 sharingLayer (freshHeap sharingDeps)
     = Some (Inr (), sharingLayer\<lparr>layerState := Started\<rparr>, sharingStarted)"
  by (simp add: start_def sharingStarted_def sharing_defs repr_defs numeral_2_eq_2)

lemma sharing_calls:
  "calls sharingStarted =
     [ConstructorCall 1 [''p'' \<mapsto> 0] 2 (services (addRef 2
          (beforeCreate 1
            (snd (create 0 [''provider'' \<mapsto> 0]
              (snd (create 2 Map.empty
                (beforeCreate 2
                  (beforeCreate 0 (freshHeap sharingDeps))))))))))
     , ConstructorCall 0 [''provider'' \<mapsto> 0] 1 (services (snd (create 2 Map.empty
                (beforeCreate 2
                  (beforeCreate 0 (freshHeap sharingDeps))))))
     , ConstructorCall 2 Map.empty 0 (services (beforeCreate 2
                  (beforeCreate 0 (freshHeap sharingDeps))))]"
  by (simp add: sharingStarted_def repr_defs freshHeap_def)

lemma uiPackages_distinct: "distinct (map name uiPackages)"
  by (simp add: uiPackages_def)

lemma startedUiLayer_index:
  "declaredDependencies startedUiLayer = buildDependencyIndex uiPackages"
  by (simp add: startedUiLayer_def newServiceLayer_def)

lemma startedUiLayer_state: "layerState startedUiLayer = Started"
  by (simp add: startedUiLayer_def)

lemma startedUiLayer_lookup: "serviceLookup startedUiLayer = uiLookup"
  by (simp add: startedUiLayer_def newServiceLayer_def)

lemmas cycle_defs = cycleLayer_def newServiceLayer_def freshHeap_def freshService_def
  cycleDeps_def cycleLookup_def needs_def mustGet_def specOf_def

lemma sharing_start4:
  "start 4 sharingLayer (freshHeap sharingDeps)
     = Some (Inr (), sharingLayer\<lparr>layerState := Started\<rparr>, sharingStarted)"
  by (simp add: start_def sharingStarted_def sharing_defs repr_defs eval_nat_numeral)

lemma cycle_start4:
  "start 4 cycleLayer (freshHeap cycleDeps)
     = Some (Inl (Error INTERNAL CycleDuringConstruction), cycleLayer, cycleFailed)"
  by (simp add: start_def cycleFailed_def cycle_defs repr_defs eval_nat_numeral)

lemma sharing_closed: "lookupClosed sharingLayer"
  by (simp add: lookupClosed_def sharing_defs)

lemma sharing_resolved: "dependenciesResolved sharingLayer (freshHeap sharingDeps)"
  by (simp add: dependenciesResolved_def sharing_defs)

lemma fresh_freshHeap: "fresh (freshHeap D)"
  by (simp add: fresh_def freshHeap_def freshService_def)

lemma sharing_graph: "dependencyGraph sharingLayer (freshHeap sharingDeps) = {(0, 2), (1, 2)}"
  by (auto simp: dependencyGraph_def sharing_defs split: if_splits)

lemma sharing_acyclic: "acyclic (dependencyGraph sharingLayer (freshHeap sharingDeps))"
proof -
  have "{(0, 2), (1, 2::nat)}\<inverse> \<subseteq> measure (\<lambda>r. if r = 2 then 0 else 1)" by auto
  then have "wf ({(0, 2), (1, 2::nat)}\<inverse>)" by (rule wf_subset[OF wf_measure])
  then have "acyclic ({(0, 2), (1, 2::nat)}\<inverse>)" by (rule wf_acyclic)
  then show ?thesis unfolding sharing_graph by (simp only: acyclic_converse)
qed

lemma cycle_closed: "lookupClosed cycleLayer"
  by (simp add: lookupClosed_def cycle_defs)

lemma cycle_resolved: "dependenciesResolved cycleLayer (freshHeap cycleDeps)"
  by (simp add: dependenciesResolved_def cycle_defs)

lemma cycle_graph: "dependencyGraph cycleLayer (freshHeap cycleDeps) = {(0, 1), (1, 0)}"
  by (auto simp: dependencyGraph_def cycle_defs split: if_splits)

lemma cycle_cyclic: "(0, 0) \<in> (dependencyGraph cycleLayer (freshHeap cycleDeps))\<^sup>+"
proof -
  have "(0, 1) \<in> (dependencyGraph cycleLayer (freshHeap cycleDeps))\<^sup>+"
    unfolding cycle_graph by (rule r_into_trancl) simp
  moreover have "(1, 0) \<in> dependencyGraph cycleLayer (freshHeap cycleDeps)"
    unfolding cycle_graph by simp
  ultimately show ?thesis by (rule trancl_into_trancl)
qed

lemma sharing_notStarted: "layerState sharingLayer = NotStarted"
  by (simp add: sharing_defs)

lemma cycle_notStarted: "layerState cycleLayer = NotStarted"
  by (simp add: cycle_defs)

lemma sharing_allServices: "allServices sharingLayer = [0, 1, 2]"
  by (simp add: sharing_defs)

lemma cycle_allServices: "allServices cycleLayer = [2, 0, 1]"
  by (simp add: cycle_defs)

lemmas dangling_defs = danglingLayer_def newServiceLayer_def freshHeap_def freshService_def
  danglingDeps_def sharingLookup_def needs_def mustGet_def specOf_def

lemma sharing_destroy:
  "destroy 9 (sharingLayer\<lparr>layerState := Started\<rparr>) sharingStarted
     = Some (sharingLayer\<lparr>layerState := LayerDestroyed\<rparr>, sharingDestroyed)"
  by (simp add: destroy_def sharingDestroyed_def sharingStarted_def sharing_defs
      destroyService_Suc release_fields addRef_fields create_fields beforeCreate_fields
      eval_nat_numeral del: destroyService.simps)

lemma sharing_remaining:
  "remaining (set (allServices sharingLayer)) sharingStarted = 8"
  by (simp add: remaining_def holds_def sharingStarted_def sharing_defs
      addRef_fields create_fields beforeCreate_fields)

lemma sharing_destroyed_states:
  "state (services sharingDestroyed 0) = Destroyed"
  "state (services sharingDestroyed 1) = Destroyed"
  "state (services sharingDestroyed 2) = Destroyed"
  by (simp_all add: sharingDestroyed_def sharingStarted_def sharing_defs
      release_fields addRef_fields create_fields beforeCreate_fields)

lemma sharing_destroyed_calls:
  "calls sharingDestroyed =
     [DestructorCall 2 0, DestructorCall 1 2, DestructorCall 0 1] @ calls sharingStarted"
  by (simp add: sharingDestroyed_def sharingStarted_def sharing_defs
      release_fields addRef_fields create_fields beforeCreate_fields)

lemma dangling_start:
  "start 3 danglingLayer (freshHeap danglingDeps)
     = Some (Inl (Error INTERNAL (FailedToFindService \<lparr>interfaceName = ''Q'', qualifier = None\<rparr> NotFound)),
             danglingLayer, beforeCreate 0 (freshHeap danglingDeps))"
  by (simp add: start_def dangling_defs repr_defs eval_nat_numeral)

lemma dangling_destroy:
  "destroy 3 danglingLayer (freshHeap danglingDeps)
     = Some (danglingLayer\<lparr>layerState := LayerDestroyed\<rparr>,
             release 2 (release 0 (freshHeap danglingDeps)))"
  by (simp add: destroy_def dangling_defs
      destroyService_Suc release_fields eval_nat_numeral del: destroyService.simps)

lemma sharing_started_closed: "lookupClosed (sharingLayer\<lparr>layerState := Started\<rparr>)"
  by (simp add: lookupClosed_def sharing_defs)

lemma sharing_started_instances:
  "serviceInstance (services sharingStarted 2) = Some 0"
  "state (services sharingStarted 2) = Constructed"
  by (simp_all add: sharingStarted_def addRef_fields create_fields beforeCreate_fields
      freshHeap_def)

lemma dangling_unresolved:
  "\<forall>t. sharingLookup (specOf (needs ''Q'' ''q'')) \<noteq> Found t"
  by (simp add: sharingLookup_def specOf_def needs_def)

lemma sharing_deps:
  "dependencies (services (freshHeap sharingDeps) 0) = [needs ''P'' ''provider'']"
  "dependencies (services (freshHeap sharingDeps) 1) = [needs ''P'' ''p'']"
  "dependencies (services (freshHeap sharingDeps) 2) = []"
  "dependencies (services (freshHeap sharingDeps) (Suc 0)) = [needs ''P'' ''p'']"
  by (simp_all add: sharing_defs)

lemma sharing_lookup_P:
  "serviceLookup sharingLayer (specOf (needs ''P'' r)) = Found 2"
  by (simp add: sharing_defs)

lemma sharing_edges:
  "\<forall>s\<in>set (allServices sharingLayer).
     edgeCount (serviceLookup sharingLayer) (dependencies (services (freshHeap sharingDeps) s)) 2
       = (if s = 0 \<or> s = 1 then 1 else 0)"
  by (simp add: sharing_allServices sharing_deps edgeCount_def sharing_lookup_P)

lemma sharing_destructorRuns:
  "destructorRuns (calls sharingDestroyed) = [2, 1, 0]"
  by (simp add: sharing_destroyed_calls sharing_calls destructorRuns_simps)

lemma sharing_set: "set (allServices sharingLayer) = {0, 1, 2}"
  by (simp add: sharing_allServices)

lemmas providerFirst_defs = providerFirstLayer_def newServiceLayer_def freshHeap_def
  freshService_def danglingDeps_def sharingLookup_def needs_def mustGet_def specOf_def

lemma providerFirst_start:
  "start 4 providerFirstLayer (freshHeap danglingDeps)
     = Some (Inl (Error INTERNAL (FailedToFindService \<lparr>interfaceName = ''Q'', qualifier = None\<rparr> NotFound)),
             providerFirstLayer, danglingFailed)"
  by (simp add: start_def danglingFailed_def providerFirst_defs repr_defs eval_nat_numeral)

lemma providerFirst_restart:
  "start 4 providerFirstLayer danglingFailed
     = Some (Inl (Error INTERNAL CycleDuringConstruction), providerFirstLayer, danglingRestarted)"
  by (simp add: start_def danglingRestarted_def danglingFailed_def providerFirst_defs repr_defs
      eval_nat_numeral)

lemma providerFirst_destroy:
  "destroy 4 providerFirstLayer danglingRestarted
     = Some (providerFirstLayer\<lparr>layerState := LayerDestroyed\<rparr>, danglingDestroyed)"
  by (simp add: destroy_def danglingDestroyed_def danglingRestarted_def danglingFailed_def
      providerFirst_defs destroyService_Suc release_fields addRef_fields create_fields
      beforeCreate_fields eval_nat_numeral del: destroyService.simps)

lemma dangling_restarted_fields:
  "state (services (release 2 danglingRestarted) 0) = Constructing"
  "state (services (release 2 danglingRestarted) 2) = Constructed"
  "useCount (services (release 2 danglingRestarted) 2) = 1"
  "useCount (services (release 2 danglingRestarted) 0) = 0"
  "dependencies (services (release 2 danglingRestarted) 0) = [needs ''Q'' ''q'', needs ''P'' ''p'']"
  "dependencies (services (release 2 danglingRestarted) 2) = []"
  by (simp_all add: danglingRestarted_def danglingFailed_def release_fields addRef_fields
      create_fields beforeCreate_fields freshHeap_def freshService_def danglingDeps_def)

lemma dangling_destroyed_fields:
  "state (services danglingDestroyed 2) = Destroyed"
  "state (services danglingDestroyed 0) = Destroyed"
  "useCount (services danglingDestroyed 2) = 0"
  "calls danglingDestroyed = DestructorCall 2 0 # calls danglingFailed"
  by (simp_all add: danglingDestroyed_def danglingRestarted_def danglingFailed_def release_fields
      addRef_fields create_fields beforeCreate_fields freshHeap_def freshService_def)

lemma cycle_restart:
  "start 4 cycleLayer cycleFailed
     = Some (Inl (Error INTERNAL CycleDuringConstruction), cycleLayer, cycleRestarted)"
  by (simp add: start_def cycleRestarted_def cycleFailed_def cycle_defs repr_defs eval_nat_numeral)

lemma cycle_destroy:
  "destroy 4 cycleLayer cycleRestarted
     = Some (cycleLayer\<lparr>layerState := LayerDestroyed\<rparr>, cycleLeft)"
  by (simp add: destroy_def cycleLeft_def cycleRestarted_def cycleFailed_def
      cycle_defs destroyService_Suc release_fields addRef_fields create_fields
      beforeCreate_fields eval_nat_numeral del: destroyService.simps)

lemma cycle_left_fields:
  "state (services cycleFailed 2) = Constructed"
  "state (services cycleLeft 2) = Constructed"
  "serviceInstance (services cycleLeft 2) = Some 0"
  "useCount (services cycleLeft 2) = 1"
  "state (services cycleLeft 0) = Destroyed"
  "state (services cycleLeft 1) = Destroyed"
  "calls cycleLeft = calls cycleFailed"
  by (simp_all add: cycleLeft_def cycleRestarted_def cycleFailed_def release_fields
      addRef_fields create_fields beforeCreate_fields freshHeap_def freshService_def)

lemma cycle_failed_calls:
  "calls cycleFailed = [ConstructorCall 2 Map.empty 0 (services (beforeCreate 2 (freshHeap cycleDeps)))]"
  by (simp add: cycleFailed_def repr_defs freshHeap_def)

lemmas nested_defs = nestedLayer_def newServiceLayer_def freshHeap_def freshService_def
  nestedDeps_def nestedLookup_def needs_def mustGet_def specOf_def

lemma nested_start:
  "start 6 nestedLayer (freshHeap nestedDeps)
     = Some (Inr (), nestedLayer\<lparr>layerState := Started\<rparr>, nestedStarted)"
  by (simp add: start_def nestedStarted_def nested_defs repr_defs eval_nat_numeral)

lemma nested_destroy:
  "destroy 6 (nestedLayer\<lparr>layerState := Started\<rparr>) nestedStarted
     = Some (nestedLayer\<lparr>layerState := LayerDestroyed\<rparr>, nestedDestroyed)"
  by (simp add: destroy_def nestedDestroyed_def nestedProviderGone_def nestedStarted_def
      nested_defs destroyService_Suc release_fields addRef_fields create_fields
      beforeCreate_fields eval_nat_numeral del: destroyService.simps)

lemma nested_started_fields:
  "useCount (services nestedStarted 4) = 3"
  "useCount (services nestedStarted 2) = 3"
  "useCount (services nestedStarted 3) = 1"
  "state (services nestedStarted 3) = Constructed"
  "state (services nestedStarted 4) = Constructed"
  "serviceInstance (services nestedStarted 4) = Some 0"
  "serviceInstance (services nestedStarted 3) = Some 4"
  "dependencies (services nestedStarted 3) = [needs ''P'' ''p'']"
  by (simp_all add: nestedStarted_def addRef_fields create_fields beforeCreate_fields
      freshHeap_def freshService_def nestedDeps_def)

lemma nested_gone_fields:
  "state (services nestedProviderGone 4) = Destroyed"
  "state (services nestedProviderGone 3) = Constructed"
  "useCount (services nestedProviderGone 3) = 1"
  "serviceInstance (services nestedProviderGone 3) = Some 4"
  by (simp_all add: nestedProviderGone_def nestedStarted_def release_fields addRef_fields
      create_fields beforeCreate_fields freshHeap_def freshService_def nestedDeps_def)

lemma nested_destructorRuns:
  "destructorRuns (calls nestedProviderGone) = [4, 2, 1, 0]"
  "destructorRuns (calls nestedDestroyed) = [3, 4, 2, 1, 0]"
  by (simp_all add: nestedDestroyed_def nestedProviderGone_def nestedStarted_def
      destructorRuns_def release_fields addRef_fields
      create_fields beforeCreate_fields freshHeap_def freshService_def nestedDeps_def)

lemma dangling_restarted_remaining: "remaining {0, 2} (release 2 danglingRestarted) < 4"
  by (simp add: remaining_def holds_def dangling_restarted_fields)

lemma dangling_restarted_loop:
  "destroyDependencies (destroyService 3 sharingLookup) sharingLookup [needs ''P'' ''p'']
     (release 0 (release 2 danglingRestarted)) = Some danglingDestroyed"
  by (simp add: danglingDestroyed_def danglingRestarted_def danglingFailed_def
      sharingLookup_def needs_def specOf_def destroyService_Suc release_fields addRef_fields
      create_fields beforeCreate_fields freshHeap_def freshService_def danglingDeps_def
      eval_nat_numeral del: destroyService.simps)

lemma dangling_restarted_visit:
  "destroyService 4 sharingLookup 0 (release 2 danglingRestarted) = Some danglingDestroyed"
  by (simp add: danglingDestroyed_def danglingRestarted_def danglingFailed_def
      sharingLookup_def needs_def specOf_def destroyService_Suc release_fields addRef_fields
      create_fields beforeCreate_fields freshHeap_def freshService_def danglingDeps_def
      eval_nat_numeral del: destroyService.simps)

lemma dangling_found:
  "foundServices sharingLookup [needs ''Q'' ''q'', needs ''P'' ''p''] = [2]"
  by (simp add: foundServices_def sharingLookup_def needs_def specOf_def)

lemma sharing_started_bound:
  "list_all (\<lambda>t. state (services sharingStarted t) \<noteq> Destroyed \<and>
        useCount (services sharingStarted t)
          \<le> int (count_list (allServices (sharingLayer\<lparr>layerState := Started\<rparr>)) t)
            + (\<Sum>u\<in>set (allServices (sharingLayer\<lparr>layerState := Started\<rparr>)).
                 int (edgeCount (serviceLookup (sharingLayer\<lparr>layerState := Started\<rparr>))
                        (dependencies (services sharingStarted u)) t)))
     (allServices (sharingLayer\<lparr>layerState := Started\<rparr>))"
  by (simp add: sharingStarted_def sharing_defs edgeCount_def addRef_fields create_fields
      beforeCreate_fields)

section \<open>The claims\<close>

text \<open>
  C4. For every service constructed during \<^verbatim>\<open>start\<close>, at the moment its own
  constructor is invoked every one of its declared dependencies is already in state
  'constructed'. Whatever \<^verbatim>\<open>start\<close> returns, the calls it has added to the trace are
  all in order: each constructor call found its service under construction and all declared
  dependencies resolved and constructed; and every service that has become constructed has
  such a call in the trace.
\<close>

theorem constructor_after_dependencies:
  assumes "start fuel L h = Some (res, L', h')"
  shows "\<exists>new. calls h' = new @ calls h \<and>
           (\<forall>c\<in>set new. dependenciesConstructed (serviceLookup L) c) \<and>
           (\<forall>s. state (services h' s) = Constructed \<longrightarrow>
              state (services h s) = Constructed \<or>
              (\<exists>references i snapshot. ConstructorCall s references i snapshot \<in> set new))"
proof -
  have "constructorRuns (serviceLookup L) h h'"
  proof (rule start_rel[where R = "constructorRuns (serviceLookup L)", OF _ _ _ _ _ assms])
    show "\<And>h. constructorRuns (serviceLookup L) h h" by (rule constructorRuns_refl)
    show "\<And>a b c. constructorRuns (serviceLookup L) a b \<Longrightarrow> constructorRuns (serviceLookup L) b c
        \<Longrightarrow> constructorRuns (serviceLookup L) a c" by (rule constructorRuns_trans)
    show "\<And>h s. constructorRuns (serviceLookup L) h (addRef s h)"
      by (simp add: constructorRuns_def repr_defs)
    show "\<And>h s. constructorRuns (serviceLookup L) h (beforeCreate s h)"
      by (simp add: constructorRuns_def repr_defs)
    show "\<And>h s refs. state (services h s) = Constructing \<Longrightarrow>
        (\<forall>d\<in>set (dependencies (services h s)).
            \<exists>t. serviceLookup L (specOf d) = Found t \<and> state (services h t) = Constructed) \<Longrightarrow>
        referencesResolved (serviceLookup L) (dependencies (services h s)) refs h \<Longrightarrow>
        constructorRuns (serviceLookup L) h (snd (create s refs h))"
      by (rule constructorRuns_create)
  qed
  then show ?thesis by (simp add: constructorRuns_def)
qed

theorem constructor_after_dependencies_witness:
  "start 2 sharingLayer (freshHeap sharingDeps)
     = Some (Inr (), sharingLayer\<lparr>layerState := Started\<rparr>, sharingStarted)
   \<and> (\<exists>new. calls sharingStarted = new @ calls (freshHeap sharingDeps) \<and> length new = 3 \<and>
           (\<forall>c\<in>set new. dependenciesConstructed (serviceLookup sharingLayer) c))"
proof -
  from constructor_after_dependencies[OF sharing_start]
  obtain new where new: "calls sharingStarted = new @ calls (freshHeap sharingDeps)"
    "\<forall>c\<in>set new. dependenciesConstructed (serviceLookup sharingLayer) c" by blast
  from arg_cong[OF new(1), of length] have "length new = 3"
    by (simp add: sharing_calls freshHeap_def)
  with new sharing_start show ?thesis by blast
qed

text \<open>
  C6. When the layer is started, \<^verbatim>\<open>getService\<close> returns 'undeclared' exactly when the
  requesting package has no declaration that matches the specification by the exact
  qualifier rules (no qualifier on both sides, or the same qualifier string on both sides);
  otherwise it returns the result of the lookup index for the specification as it is. In
  either case it returns a value and raises no exception. The layer's index is the one
  built from the packages, whose names are unique.
\<close>

theorem getService_outcomes:
  assumes "distinct (map name packages)"
    and "declaredDependencies L = buildDependencyIndex packages"
    and "layerState L = Started"
  shows "(getService L packageName spec = Inr Undeclared
            \<longleftrightarrow> \<not> (\<exists>pkg\<in>set packages. name pkg = packageName \<and> declares pkg spec))
       \<and> ((\<exists>pkg\<in>set packages. name pkg = packageName \<and> declares pkg spec)
            \<longrightarrow> getService L packageName spec = Inr (LookupResult (serviceLookup L spec)))
       \<and> (\<exists>r. getService L packageName spec = Inr r)"
  using isDeclared_iff[OF assms(1,2), of packageName spec] assms(3)
  by (simp add: getService_def)

theorem getService_outcomes_witness:
  "distinct (map name uiPackages)
   \<and> declaredDependencies startedUiLayer = buildDependencyIndex uiPackages
   \<and> layerState startedUiLayer = Started
   \<and> getService startedUiLayer ''pkgA'' \<lparr>interfaceName = ''X'', qualifier = None\<rparr>
       = Inr (LookupResult (Found 0))
   \<and> getService startedUiLayer ''pkgA'' \<lparr>interfaceName = ''Y'', qualifier = Some ''v1''\<rparr>
       = Inr (LookupResult Ambiguous)
   \<and> getService startedUiLayer ''pkgA'' \<lparr>interfaceName = ''Z'', qualifier = None\<rparr>
       = Inr (LookupResult NotFound)
   \<and> getService startedUiLayer ''pkgA'' \<lparr>interfaceName = ''Y'', qualifier = Some ''v2''\<rparr>
       = Inr Undeclared
   \<and> getService startedUiLayer ''pkgA'' \<lparr>interfaceName = ''Y'', qualifier = None\<rparr>
       = Inr Undeclared
   \<and> getService startedUiLayer ''pkgB'' \<lparr>interfaceName = ''X'', qualifier = None\<rparr>
       = Inr Undeclared"
proof -
  note th = getService_outcomes[OF uiPackages_distinct startedUiLayer_index startedUiLayer_state]
  note lk = startedUiLayer_lookup
  have 1: "getService startedUiLayer ''pkgA'' \<lparr>interfaceName = ''X'', qualifier = None\<rparr>
       = Inr (LookupResult (Found 0))"
    using th[of "''pkgA''" "\<lparr>interfaceName = ''X'', qualifier = None\<rparr>"]
    by (simp add: uiPackages_def declares_def lk uiLookup_def)
  have 2: "getService startedUiLayer ''pkgA'' \<lparr>interfaceName = ''Y'', qualifier = Some ''v1''\<rparr>
       = Inr (LookupResult Ambiguous)"
    using th[of "''pkgA''" "\<lparr>interfaceName = ''Y'', qualifier = Some ''v1''\<rparr>"]
    by (simp add: uiPackages_def declares_def lk uiLookup_def)
  have 3: "getService startedUiLayer ''pkgA'' \<lparr>interfaceName = ''Z'', qualifier = None\<rparr>
       = Inr (LookupResult NotFound)"
    using th[of "''pkgA''" "\<lparr>interfaceName = ''Z'', qualifier = None\<rparr>"]
    by (simp add: uiPackages_def declares_def lk uiLookup_def)
  have 4: "getService startedUiLayer ''pkgA'' \<lparr>interfaceName = ''Y'', qualifier = Some ''v2''\<rparr>
       = Inr Undeclared"
    using th[of "''pkgA''" "\<lparr>interfaceName = ''Y'', qualifier = Some ''v2''\<rparr>"]
    by (simp add: uiPackages_def declares_def)
  have 5: "getService startedUiLayer ''pkgA'' \<lparr>interfaceName = ''Y'', qualifier = None\<rparr>
       = Inr Undeclared"
    using th[of "''pkgA''" "\<lparr>interfaceName = ''Y'', qualifier = None\<rparr>"]
    by (simp add: uiPackages_def declares_def)
  have 6: "getService startedUiLayer ''pkgB'' \<lparr>interfaceName = ''X'', qualifier = None\<rparr>
       = Inr Undeclared"
    using th[of "''pkgB''" "\<lparr>interfaceName = ''X'', qualifier = None\<rparr>"]
    by (simp add: uiPackages_def declares_def)
  from uiPackages_distinct startedUiLayer_index startedUiLayer_state 1 2 3 4 5 6
  show ?thesis by (intro conjI)
qed

text \<open>
  C7. Calling \<^verbatim>\<open>start\<close> when the layer state is anything other than 'not-started'
  fails with an internal error and changes nothing; in particular a second call after a
  successful one fails. Calling \<^verbatim>\<open>getService\<close> when the layer state is anything other
  than 'started' fails with an internal error; in particular it fails on a layer that has
  just been built.
\<close>

theorem lifecycle_guards:
  "(layerState L \<noteq> NotStarted \<longrightarrow>
      start fuel L h = Some (Inl (Error INTERNAL AlreadyStarted), L, h))
   \<and> (layerState L \<noteq> Started \<longrightarrow>
      getService L packageName spec = Inl (Error INTERNAL NotStarted_msg))
   \<and> (\<forall>L' h'. start fuel L h = Some (Inr (), L', h') \<longrightarrow>
        start fuel' L' h' = Some (Inl (Error INTERNAL AlreadyStarted), L', h'))
   \<and> getService (newServiceLayer lookup packages) packageName spec
        = Inl (Error INTERNAL NotStarted_msg)"
  by (auto simp: start_def getService_def newServiceLayer_def split: option.splits sum.splits)

theorem lifecycle_guards_witness:
  "layerState (sharingLayer\<lparr>layerState := LayerDestroyed\<rparr>) \<noteq> NotStarted
   \<and> start 2 (sharingLayer\<lparr>layerState := LayerDestroyed\<rparr>) sharingStarted
       = Some (Inl (Error INTERNAL AlreadyStarted), sharingLayer\<lparr>layerState := LayerDestroyed\<rparr>,
               sharingStarted)
   \<and> layerState (sharingLayer\<lparr>layerState := LayerDestroyed\<rparr>) \<noteq> Started
   \<and> getService (sharingLayer\<lparr>layerState := LayerDestroyed\<rparr>) ''app''
        \<lparr>interfaceName = ''P'', qualifier = None\<rparr> = Inl (Error INTERNAL NotStarted_msg)
   \<and> start 2 sharingLayer (freshHeap sharingDeps)
       = Some (Inr (), sharingLayer\<lparr>layerState := Started\<rparr>, sharingStarted)
   \<and> start 2 (sharingLayer\<lparr>layerState := Started\<rparr>) sharingStarted
       = Some (Inl (Error INTERNAL AlreadyStarted), sharingLayer\<lparr>layerState := Started\<rparr>,
               sharingStarted)
   \<and> getService sharingLayer ''app'' \<lparr>interfaceName = ''P'', qualifier = None\<rparr>
       = Inl (Error INTERNAL NotStarted_msg)"
proof -
  let ?D = "sharingLayer\<lparr>layerState := LayerDestroyed\<rparr>"
  let ?spec = "\<lparr>interfaceName = ''P'', qualifier = None\<rparr>"
  have d: "layerState ?D \<noteq> NotStarted" "layerState ?D \<noteq> Started" by simp_all
  note g = lifecycle_guards[of ?D 2 sharingStarted "''app''" ?spec]
  note f = lifecycle_guards[of sharingLayer 2 "freshHeap sharingDeps" "''app''" ?spec 2]
  have 1: "start 2 ?D sharingStarted = Some (Inl (Error INTERNAL AlreadyStarted), ?D, sharingStarted)"
    using g d by blast
  have 2: "getService ?D ''app'' ?spec = Inl (Error INTERNAL NotStarted_msg)"
    using g d by blast
  have 3: "start 2 (sharingLayer\<lparr>layerState := Started\<rparr>) sharingStarted
       = Some (Inl (Error INTERNAL AlreadyStarted), sharingLayer\<lparr>layerState := Started\<rparr>,
               sharingStarted)"
    using f sharing_start by blast
  have "layerState sharingLayer \<noteq> Started" by (simp add: sharingLayer_def newServiceLayer_def)
  with f have 4: "getService sharingLayer ''app'' ?spec = Inl (Error INTERNAL NotStarted_msg)"
    by blast
  from d 1 2 3 4 sharing_start show ?thesis by (intro conjI)
qed

text \<open>
  C3. For every service set whose dependency graph is acyclic and whose declared
  dependencies are all resolved by the lookup index, \<^verbatim>\<open>start\<close> on the newly built
  layer comes back without an exception, the layer is 'started', and every service of the
  layer is in state 'constructed' with a reference count of at least 1. The recursion
  needs no more depth than the number of services plus one.
\<close>

theorem start_acyclic_succeeds:
  assumes closed: "lookupClosed L"
    and resolved: "dependenciesResolved L h"
    and acyc: "acyclic (dependencyGraph L h)"
    and fresh: "fresh h"
    and ns: "layerState L = NotStarted"
    and fuel: "length (allServices L) < fuel"
  shows "\<exists>h'. start fuel L h = Some (Inr (), L\<lparr>layerState := Started\<rparr>, h') \<and>
           (\<forall>s\<in>set (allServices L).
              state (services h' s) = Constructed \<and> 1 \<le> useCount (services h' s))"
proof -
  let ?lk = "serviceLookup L" and ?A = "set (allServices L)"
  let ?D = "\<lambda>r. dependencies (services h r)"
  have cl: "\<forall>spec t. ?lk spec = Found t \<longrightarrow> t \<in> ?A"
    using closed by (simp add: lookupClosed_def)
  have res: "\<forall>s\<in>?A. \<forall>d\<in>set (?D s). \<exists>t. ?lk (specOf d) = Found t"
    using resolved by (simp add: dependenciesResolved_def)
  have E: "dependencyGraph L h = {(s, t). s \<in> ?A \<and> (\<exists>d\<in>set (?D s). ?lk (specOf d) = Found t)}"
    by (simp add: dependencyGraph_def)
  from start_total[OF closed fuel] obtain r L' h' where run: "start fuel L h = Some (r, L', h')"
    by blast
  let ?P = "\<lambda>k. wellFormed ?lk k \<and> (\<forall>r. dependencies (services k r) = ?D r) \<and>
                (\<forall>r. state (services k r) \<noteq> Constructing)"
  have P0: "?P h" using fresh by (simp add: fresh_wellFormed) (simp add: fresh_def)
  have pres: "?P k'" if "?P k" "createService fuel ?lk t k = Some (Inr i, k')" for t k i k'
  proof (intro conjI)
    from that show "wellFormed ?lk k'" by (blast intro: createService_wellFormed)
    from createService_frame[OF that(2)] that(1)
    show "\<forall>r. dependencies (services k' r) = ?D r" by (simp add: frame_def)
    from createService_no_new_constructing[OF that(2)] that(1)
    show "\<forall>r. state (services k' r) \<noteq> Constructing" by blast
  qed
  from run show ?thesis
  proof (cases rule: start_cases)
    case guard
    with ns show ?thesis by simp
  next
    case (failed e)
    have False
    proof (rule createAll_error[where T = "\<lambda>t. t \<in> ?A" and P = ?P and Q = "\<lambda>e. False",
          OF _ _ _ P0 failed(2)])
      show "\<And>t k e k'. t \<in> ?A \<Longrightarrow> ?P k \<Longrightarrow> createService fuel ?lk t k = Some (Inl e, k') \<Longrightarrow> False"
        using createService_acyclic_success[OF cl res E acyc] by fastforce
      show "\<And>t k i k'. t \<in> ?A \<Longrightarrow> ?P k \<Longrightarrow> createService fuel ?lk t k = Some (Inr i, k') \<Longrightarrow> ?P k'"
        using pres by blast
    qed simp
    then show ?thesis ..
  next
    case started
    have c: "\<forall>s\<in>?A. state (services h' s) = Constructed"
      using started(2)
      by (rule createAll_constructed[rotated 2])
         (auto dest: createService_success createService_frame)
    have "wellFormed ?lk h'"
      using started(2) fresh by (auto intro: createAll_wellFormed fresh_wellFormed)
    with c have "\<forall>s\<in>?A. 1 \<le> useCount (services h' s)" by (simp add: wellFormed_def)
    with c run started show ?thesis by simp
  qed
qed

theorem start_acyclic_succeeds_witness:
  "lookupClosed sharingLayer
   \<and> dependenciesResolved sharingLayer (freshHeap sharingDeps)
   \<and> acyclic (dependencyGraph sharingLayer (freshHeap sharingDeps))
   \<and> fresh (freshHeap sharingDeps)
   \<and> layerState sharingLayer = NotStarted
   \<and> length (allServices sharingLayer) < 4
   \<and> start 4 sharingLayer (freshHeap sharingDeps)
        = Some (Inr (), sharingLayer\<lparr>layerState := Started\<rparr>, sharingStarted)
   \<and> state (services sharingStarted 0) = Constructed \<and> 1 \<le> useCount (services sharingStarted 0)
   \<and> state (services sharingStarted 1) = Constructed \<and> 1 \<le> useCount (services sharingStarted 1)
   \<and> state (services sharingStarted 2) = Constructed \<and> 1 \<le> useCount (services sharingStarted 2)"
proof -
  have len: "length (allServices sharingLayer) < 4" by (simp add: sharing_allServices)
  from start_acyclic_succeeds[OF sharing_closed sharing_resolved sharing_acyclic
      fresh_freshHeap sharing_notStarted len]
  have "\<forall>s\<in>set (allServices sharingLayer).
          state (services sharingStarted s) = Constructed \<and> 1 \<le> useCount (services sharingStarted s)"
    by (simp add: sharing_start4)
  then have "state (services sharingStarted 0) = Constructed \<and> 1 \<le> useCount (services sharingStarted 0)"
    "state (services sharingStarted 1) = Constructed \<and> 1 \<le> useCount (services sharingStarted 1)"
    "state (services sharingStarted 2) = Constructed \<and> 1 \<le> useCount (services sharingStarted 2)"
    by (simp_all add: sharing_allServices)
  with sharing_closed sharing_resolved sharing_acyclic fresh_freshHeap sharing_notStarted len
    sharing_start4
  show ?thesis by simp
qed

text \<open>
  C5. For every service set that contains a dependency cycle, \<^verbatim>\<open>start\<close> on the newly
  built layer comes back with the cycle error, which is raised when recursive construction
  reaches a service in state 'constructing'; the layer is left as it was, no service on
  a cycle is in state 'constructed' afterwards, and the constructor of no service on a
  cycle has been called.
\<close>

theorem start_cycle_fails:
  assumes closed: "lookupClosed L"
    and resolved: "dependenciesResolved L h"
    and cyc: "(c, c) \<in> (dependencyGraph L h)\<^sup>+"
    and fresh: "fresh h"
    and ns: "layerState L = NotStarted"
    and fuel: "length (allServices L) < fuel"
  shows "\<exists>h'. start fuel L h = Some (Inl (Error INTERNAL CycleDuringConstruction), L, h') \<and>
           (\<forall>s. (s, s) \<in> (dependencyGraph L h)\<^sup>+ \<longrightarrow> state (services h' s) \<noteq> Constructed) \<and>
           (\<exists>new. calls h' = new @ calls h \<and>
              (\<forall>s references i snapshot. (s, s) \<in> (dependencyGraph L h)\<^sup>+ \<longrightarrow>
                 ConstructorCall s references i snapshot \<notin> set new)) \<and>
           (\<forall>g s k. state (services k s) = Constructing \<longrightarrow>
              createService (Suc g) (serviceLookup L) s k
                = Some (Inl (Error INTERNAL CycleDuringConstruction), k))"
proof -
  let ?lk = "serviceLookup L" and ?A = "set (allServices L)"
  let ?D = "\<lambda>r. dependencies (services h r)"
  have cl: "\<forall>spec t. ?lk spec = Found t \<longrightarrow> t \<in> ?A"
    using closed by (simp add: lookupClosed_def)
  have res: "\<forall>s\<in>?A. \<forall>d\<in>set (?D s). \<exists>t. ?lk (specOf d) = Found t"
    using resolved by (simp add: dependenciesResolved_def)
  from start_total[OF closed fuel] obtain r L' h' where run: "start fuel L h = Some (r, L', h')"
    by blast
  have wf': "wellFormed ?lk h'"
    using run fresh by (auto intro: start_wellFormed fresh_wellFormed)
  have G: "dependencyGraph L h' = dependencyGraph L h"
    using start_frame[OF run] by (rule frame_dependencyGraph)
  have nc: "\<forall>s. (s, s) \<in> (dependencyGraph L h)\<^sup>+ \<longrightarrow> state (services h' s) \<noteq> Constructed"
    using wellFormed_cycle[OF wf'] G by simp
  from cyc have cA: "c \<in> ?A"
    by (auto simp: dependencyGraph_def dest!: tranclD)
  from start_handsOver[OF run] obtain new where new: "calls h' = new @ calls h"
    and ho: "\<forall>c\<in>set new. handedOver ?lk h' c"
    unfolding handsOver_def by blast
  have quiet: "\<forall>s references i snapshot. (s, s) \<in> (dependencyGraph L h)\<^sup>+ \<longrightarrow>
                 ConstructorCall s references i snapshot \<notin> set new"
  proof (intro allI impI notI)
    fix s references i snapshot
    assume s: "(s, s) \<in> (dependencyGraph L h)\<^sup>+"
      and "ConstructorCall s references i snapshot \<in> set new"
    with ho have "handedOver ?lk h' (ConstructorCall s references i snapshot)" by blast
    then have "state (services h' s) = Constructed" by (simp add: handedOver_def)
    with nc s show False by blast
  qed
  from new quiet have tr: "\<exists>new. calls h' = new @ calls h \<and>
              (\<forall>s references i snapshot. (s, s) \<in> (dependencyGraph L h)\<^sup>+ \<longrightarrow>
                 ConstructorCall s references i snapshot \<notin> set new)"
    by blast
  have raise: "\<forall>g s k. state (services k s) = Constructing \<longrightarrow>
              createService (Suc g) (serviceLookup L) s k
                = Some (Inl (Error INTERNAL CycleDuringConstruction), k)"
    by simp
  let ?P = "\<lambda>k. wellFormed ?lk k \<and> (\<forall>r. dependencies (services k r) = ?D r)"
  from run show ?thesis
  proof (cases rule: start_cases)
    case guard
    with ns show ?thesis by simp
  next
    case (failed e)
    have "e = Error INTERNAL CycleDuringConstruction"
    proof (rule createAll_error[where T = "\<lambda>t. t \<in> ?A" and P = ?P
          and Q = "\<lambda>e. e = Error INTERNAL CycleDuringConstruction", OF _ _ _ _ failed(2)])
      show "\<And>t k e k'. t \<in> ?A \<Longrightarrow> ?P k \<Longrightarrow> createService fuel ?lk t k = Some (Inl e, k') \<Longrightarrow>
          e = Error INTERNAL CycleDuringConstruction"
        using createService_errors[OF cl res] by blast
      show "\<And>t k i k'. t \<in> ?A \<Longrightarrow> ?P k \<Longrightarrow> createService fuel ?lk t k = Some (Inr i, k') \<Longrightarrow> ?P k'"
        using createService_wellFormed createService_frame by (fastforce simp: frame_def)
      show "?P h" using fresh by (simp add: fresh_wellFormed)
    qed simp
    with run failed have "start fuel L h = Some (Inl (Error INTERNAL CycleDuringConstruction), L, h')"
      by simp
    with nc tr raise show ?thesis by (intro exI[of _ h'] conjI)
  next
    case started
    have "\<forall>s\<in>?A. state (services h' s) = Constructed"
      using started(2)
      by (rule createAll_constructed[rotated 2])
         (auto dest: createService_success createService_frame)
    with cA nc cyc show ?thesis by blast
  qed
qed

theorem start_cycle_fails_witness:
  "lookupClosed cycleLayer
   \<and> dependenciesResolved cycleLayer (freshHeap cycleDeps)
   \<and> (0, 0) \<in> (dependencyGraph cycleLayer (freshHeap cycleDeps))\<^sup>+
   \<and> fresh (freshHeap cycleDeps)
   \<and> layerState cycleLayer = NotStarted
   \<and> length (allServices cycleLayer) < 4
   \<and> start 4 cycleLayer (freshHeap cycleDeps)
        = Some (Inl (Error INTERNAL CycleDuringConstruction), cycleLayer, cycleFailed)
   \<and> state (services cycleFailed 0) \<noteq> Constructed
   \<and> state (services cycleFailed 1) \<noteq> Constructed"
proof -
  have len: "length (allServices cycleLayer) < 4" by (simp add: cycle_allServices)
  have c1: "(1, 1) \<in> (dependencyGraph cycleLayer (freshHeap cycleDeps))\<^sup>+"
    unfolding cycle_graph by (rule trancl_into_trancl[of _ 0]) (simp_all add: r_into_trancl)
  from start_cycle_fails[OF cycle_closed cycle_resolved cycle_cyclic fresh_freshHeap
      cycle_notStarted len]
  have "\<forall>s. (s, s) \<in> (dependencyGraph cycleLayer (freshHeap cycleDeps))\<^sup>+ \<longrightarrow>
           state (services cycleFailed s) \<noteq> Constructed"
    by (simp add: cycle_start4)
  with cycle_cyclic c1 have "state (services cycleFailed 0) \<noteq> Constructed"
    "state (services cycleFailed 1) \<noteq> Constructed" by blast+
  with cycle_closed cycle_resolved cycle_cyclic fresh_freshHeap cycle_notStarted len cycle_start4
  show ?thesis by simp
qed



text \<open>
  C8, as amended. \<^verbatim>\<open>destroy\<close> always succeeds: in any layer state and on any heap it comes
  back without an exception once the fuel exceeds the references still held, and leaves the
  layer state 'destroyed'. It takes one reference for each visit and tears down what then
  holds none: a service changes state only by becoming destroyed, every service of the
  layer that holds at most one reference is destroyed, and the destructor of every instance
  whose service has become destroyed has been called. When no service of the layer is
  destroyed or holds more references than the visits of the layer and the declared
  dependencies on it account for, every service of the layer is destroyed afterwards: so
  it is when the heap is what \<^verbatim>\<open>start\<close> has left of a fresh heap without references,
  whether \<^verbatim>\<open>start\<close> has succeeded or has failed half-way. The claim as stated, that
  whatever was constructed is torn down, fails for a service that holds more references
  than \<^verbatim>\<open>destroy\<close> takes, as after two failed calls of \<^verbatim>\<open>start\<close>.
\<close>

theorem destroy_always_succeeds:
  assumes "lookupClosed L" and "remaining (set (allServices L)) h < fuel"
  shows "\<exists>h'. destroy fuel L h = Some (L\<lparr>layerState := LayerDestroyed\<rparr>, h') \<and>
           layerState (L\<lparr>layerState := LayerDestroyed\<rparr>) = LayerDestroyed \<and>
           (\<forall>s. state (services h' s) = Destroyed \<or> state (services h' s) = state (services h s)) \<and>
           (\<forall>s\<in>set (allServices L).
               useCount (services h s) \<le> 1 \<longrightarrow> state (services h' s) = Destroyed) \<and>
           (\<forall>s i. state (services h s) \<noteq> Destroyed \<and> state (services h' s) = Destroyed \<and>
                  serviceInstance (services h s) = Some i \<longrightarrow>
                  DestructorCall s i \<in> set (calls h')) \<and>
           ((\<forall>t\<in>set (allServices L).
                state (services h t) \<noteq> Destroyed \<and>
                useCount (services h t)
                  \<le> int (count_list (allServices L) t)
                    + (\<Sum>u\<in>set (allServices L).
                         int (edgeCount (serviceLookup L) (dependencies (services h u)) t))) \<longrightarrow>
            (\<forall>s\<in>set (allServices L). state (services h' s) = Destroyed)) \<and>
           (\<forall>fuel0 L0 h0 res.
               fresh h0 \<and> (\<forall>r. useCount (services h0 r) = 0) \<and>
               start fuel0 L0 h0 = Some (res, L, h) \<longrightarrow>
               (\<forall>s\<in>set (allServices L). state (services h' s) = Destroyed))"
proof -
  from destroy_total[OF assms] obtain h' where
    run: "destroy fuel L h = Some (L\<lparr>layerState := LayerDestroyed\<rparr>, h')" by blast
  then have all: "destroyAll (destroyService fuel (serviceLookup L)) (allServices L) h = Some h'"
    by (auto simp: destroy_def split: option.splits)
  have t: "tornDown h h'"
    using tornDown_refl tornDown_trans tornDown_release run by (rule destroy_rel)
  from tornDown_alive[OF t]
  have 1: "\<forall>s. state (services h' s) = Destroyed \<or> state (services h' s) = state (services h s)"
    by blast
  from destroyAll_last_reference[OF all]
  have 2: "\<forall>s\<in>set (allServices L). useCount (services h s) \<le> 1 \<longrightarrow> state (services h' s) = Destroyed"
    by blast
  from t have 3: "\<forall>s i. state (services h s) \<noteq> Destroyed \<and> state (services h' s) = Destroyed \<and>
                  serviceInstance (services h s) = Some i \<longrightarrow>
                  DestructorCall s i \<in> set (calls h')"
    by (blast intro: tornDown_destructor)
  have 5: "(\<forall>t\<in>set (allServices L).
                state (services h t) \<noteq> Destroyed \<and>
                useCount (services h t)
                  \<le> int (count_list (allServices L) t)
                    + (\<Sum>u\<in>set (allServices L).
                         int (edgeCount (serviceLookup L) (dependencies (services h u)) t))) \<longrightarrow>
            (\<forall>s\<in>set (allServices L). state (services h' s) = Destroyed)"
  proof
    assume b: "\<forall>t\<in>set (allServices L).
                state (services h t) \<noteq> Destroyed \<and>
                useCount (services h t)
                  \<le> int (count_list (allServices L) t)
                    + (\<Sum>u\<in>set (allServices L).
                         int (edgeCount (serviceLookup L) (dependencies (services h u)) t))"
    then have alive: "\<forall>t\<in>set (allServices L). state (services h t) \<noteq> Destroyed"
      and bound: "\<forall>t\<in>set (allServices L). useCount (services h t)
                  \<le> int (count_list (allServices L) t)
                    + (\<Sum>u\<in>set (allServices L).
                         int (edgeCount (serviceLookup L) (dependencies (services h u)) t))"
      by blast+
    from destroy_all_destroyed[OF assms(1) alive bound run]
    show "\<forall>s\<in>set (allServices L). state (services h' s) = Destroyed" .
  qed
  have 4: "\<forall>fuel0 L0 h0 res.
               fresh h0 \<and> (\<forall>r. useCount (services h0 r) = 0) \<and>
               start fuel0 L0 h0 = Some (res, L, h) \<longrightarrow>
               (\<forall>s\<in>set (allServices L). state (services h' s) = Destroyed)"
  proof (intro allI impI, elim conjE)
    fix fuel0 L0 h0 res
    assume fr: "fresh h0" and zero: "\<forall>r. useCount (services h0 r) = 0"
      and st: "start fuel0 L0 h0 = Some (res, L, h)"
    from st have same: "allServices L = allServices L0" "serviceLookup L = serviceLookup L0"
      by (cases rule: start_cases; simp)+
    with assms(1) have "lookupClosed L0" by (simp add: lookupClosed_def)
    from start_destroy_all_destroyed[OF this fr zero st run] same
    show "\<forall>s\<in>set (allServices L). state (services h' s) = Destroyed" by simp
  qed
  have 0: "layerState (L\<lparr>layerState := LayerDestroyed\<rparr>) = LayerDestroyed" by simp
  from run 0 1 2 3 5 4 show ?thesis by (intro exI[of _ h'] conjI)
qed

theorem destroy_always_succeeds_witness:
  "lookupClosed (sharingLayer\<lparr>layerState := Started\<rparr>)
   \<and> remaining (set (allServices (sharingLayer\<lparr>layerState := Started\<rparr>))) sharingStarted < 9
   \<and> list_all (\<lambda>t. state (services sharingStarted t) \<noteq> Destroyed \<and>
        useCount (services sharingStarted t)
          \<le> int (count_list (allServices (sharingLayer\<lparr>layerState := Started\<rparr>)) t)
            + (\<Sum>u\<in>set (allServices (sharingLayer\<lparr>layerState := Started\<rparr>)).
                 int (edgeCount (serviceLookup (sharingLayer\<lparr>layerState := Started\<rparr>))
                        (dependencies (services sharingStarted u)) t)))
       (allServices (sharingLayer\<lparr>layerState := Started\<rparr>))
   \<and> fresh (freshHeap sharingDeps)
   \<and> start 4 sharingLayer (freshHeap sharingDeps)
       = Some (Inr (), sharingLayer\<lparr>layerState := Started\<rparr>, sharingStarted)
   \<and> destroy 9 (sharingLayer\<lparr>layerState := Started\<rparr>) sharingStarted
       = Some (sharingLayer\<lparr>layerState := LayerDestroyed\<rparr>, sharingDestroyed)
   \<and> layerState (sharingLayer\<lparr>layerState := LayerDestroyed\<rparr>) = LayerDestroyed
   \<and> state (services sharingDestroyed 0) = Destroyed
   \<and> state (services sharingDestroyed 1) = Destroyed
   \<and> state (services sharingDestroyed 2) = Destroyed
   \<and> DestructorCall 2 0 \<in> set (calls sharingDestroyed)"
proof -
  let ?L = "sharingLayer\<lparr>layerState := Started\<rparr>"
  have r: "remaining (set (allServices ?L)) sharingStarted < 9"
    by (simp add: sharing_remaining)
  have zero: "\<forall>r. useCount (services (freshHeap sharingDeps) r) = 0"
    by (simp add: freshHeap_def freshService_def)
  note main = destroy_always_succeeds[OF sharing_started_closed r]
  from main have *: "\<forall>s i. state (services sharingStarted s) \<noteq> Destroyed \<and>
              state (services sharingDestroyed s) = Destroyed \<and>
              serviceInstance (services sharingStarted s) = Some i \<longrightarrow>
              DestructorCall s i \<in> set (calls sharingDestroyed)"
    by (simp add: sharing_destroy)
  from main have "\<forall>fuel0 L0 h0 res.
               fresh h0 \<and> (\<forall>r. useCount (services h0 r) = 0) \<and>
               start fuel0 L0 h0 = Some (res, ?L, sharingStarted) \<longrightarrow>
               (\<forall>s\<in>set (allServices ?L). state (services sharingDestroyed s) = Destroyed)"
    by (simp add: sharing_destroy)
  from this[rule_format, of "freshHeap sharingDeps" 4 sharingLayer "Inr ()"]
    fresh_freshHeap zero sharing_start4
  have all: "\<forall>s\<in>set (allServices ?L). state (services sharingDestroyed s) = Destroyed"
    by blast
  have d: "state (services sharingDestroyed 0) = Destroyed"
    "state (services sharingDestroyed 1) = Destroyed"
    "state (services sharingDestroyed 2) = Destroyed"
    using all by (simp_all add: sharing_allServices)
  have "DestructorCall 2 0 \<in> set (calls sharingDestroyed)"
    using *[rule_format, of 2 0] sharing_started_instances d by simp
  then have c: "DestructorCall 2 0 \<in> set (calls sharingDestroyed)" .
  have ls: "layerState (sharingLayer\<lparr>layerState := LayerDestroyed\<rparr>) = LayerDestroyed"
    by simp
  from sharing_started_closed r sharing_started_bound fresh_freshHeap sharing_start4
    sharing_destroy ls d c
  show ?thesis by (intro conjI)
qed

text \<open>
  After two failed calls of \<^verbatim>\<open>start\<close> on the cycle configuration, service 2 is constructed
  and holds two references. \<^verbatim>\<open>destroy\<close> comes back and marks the layer destroyed, but
  releases service 2 once only: it stays constructed, with its instance, and its
  destructor is not called.
\<close>

theorem destroy_leaves_constructed_service:
  "start 4 cycleLayer (freshHeap cycleDeps)
     = Some (Inl (Error INTERNAL CycleDuringConstruction), cycleLayer, cycleFailed)
   \<and> start 4 cycleLayer cycleFailed
     = Some (Inl (Error INTERNAL CycleDuringConstruction), cycleLayer, cycleRestarted)
   \<and> destroy 4 cycleLayer cycleRestarted
     = Some (cycleLayer\<lparr>layerState := LayerDestroyed\<rparr>, cycleLeft)
   \<and> state (services cycleRestarted 2) = Constructed
   \<and> useCount (services cycleRestarted 2) = 2
   \<and> state (services cycleLeft 2) = Constructed
   \<and> serviceInstance (services cycleLeft 2) = Some 0
   \<and> useCount (services cycleLeft 2) = 1
   \<and> DestructorCall 2 0 \<notin> set (calls cycleLeft)"
proof -
  have r: "state (services cycleRestarted 2) = Constructed"
    "useCount (services cycleRestarted 2) = 2"
    by (simp_all add: cycleRestarted_def cycleFailed_def addRef_fields create_fields
        beforeCreate_fields freshHeap_def freshService_def)
  have c: "DestructorCall 2 0 \<notin> set (calls cycleLeft)"
    by (simp add: cycle_left_fields cycle_failed_calls)
  from cycle_start4 cycle_restart cycle_destroy r cycle_left_fields(2,3,4) c
  show ?thesis by (intro conjI)
qed

text \<open>
  C10. During destruction a declared dependency whose lookup is not 'found' is passed over
  and the loop goes on with the remaining dependencies, whereas during construction
  \<^verbatim>\<open>mustGet\<close> raises an internal error for the same lookup and the loop stops there.
  The loop of destruction visits exactly the services that the dependencies resolve to, in
  their order, so that destruction of a living service is its release followed by the
  visits of those services. Recursive destruction comes back whatever the lookups of the
  dependencies are: it needs the fuel to exceed the references still held, and nothing
  else; and when it comes back from a living service, every living service that one of
  the declared dependencies resolves to has lost a reference.
\<close>

theorem unresolved_dependency_in_destruction:
  "((\<forall>t. lookup (specOf d) \<noteq> Found t) \<longrightarrow>
      destroyDependencies recur lookup (d # ds) h = destroyDependencies recur lookup ds h \<and>
      mustGet lookup (specOf d)
        = Inl (Error INTERNAL (FailedToFindService (specOf d) (lookup (specOf d)))) \<and>
      createDependencies recur' lookup (d # ds) instances h
        = Some (Inl (Error INTERNAL (FailedToFindService (specOf d) (lookup (specOf d)))), h))
   \<and> destroyDependencies recur lookup ds h = destroyAll recur (foundServices lookup ds) h
   \<and> (state (services h s) \<noteq> Destroyed \<longrightarrow>
        destroyService (Suc n) lookup s h
          = destroyAll (destroyService n lookup)
              (foundServices lookup (dependencies (services h s))) (release s h))
   \<and> ((\<forall>spec t. lookup spec = Found t \<longrightarrow> t \<in> A) \<and> finite A \<and> s \<in> A \<and> remaining A h < fuel \<longrightarrow>
        (\<exists>h'. destroyService fuel lookup s h = Some h' \<and>
           (state (services h s) \<noteq> Destroyed \<longrightarrow>
              (\<forall>t\<in>set (foundServices lookup (dependencies (services h s))).
                 state (services h t) \<noteq> Destroyed \<longrightarrow>
                 useCount (services h' t) < useCount (services h t)))))"
proof (intro conjI impI)
  assume u: "\<forall>t. lookup (specOf d) \<noteq> Found t"
  then show "destroyDependencies recur lookup (d # ds) h = destroyDependencies recur lookup ds h"
    by (cases "lookup (specOf d)") simp_all
  from u show m: "mustGet lookup (specOf d)
        = Inl (Error INTERNAL (FailedToFindService (specOf d) (lookup (specOf d))))"
    by (cases "lookup (specOf d)") (simp_all add: mustGet_def)
  then show "createDependencies recur' lookup (d # ds) instances h
        = Some (Inl (Error INTERNAL (FailedToFindService (specOf d) (lookup (specOf d)))), h)"
    by simp
next
  show "destroyDependencies recur lookup ds h = destroyAll recur (foundServices lookup ds) h"
    by (rule destroyDependencies_foundServices)
next
  assume "state (services h s) \<noteq> Destroyed"
  then show "destroyService (Suc n) lookup s h
          = destroyAll (destroyService n lookup)
              (foundServices lookup (dependencies (services h s))) (release s h)"
    by (simp add: destroyService_Suc destroyDependencies_foundServices del: destroyService.simps)
next
  assume a: "(\<forall>spec t. lookup spec = Found t \<longrightarrow> t \<in> A) \<and> finite A \<and> s \<in> A \<and> remaining A h < fuel"
  then obtain h' where run: "destroyService fuel lookup s h = Some h'"
    using destroyService_total[of lookup A s h fuel] by blast
  have "\<forall>t\<in>set (foundServices lookup (dependencies (services h s))).
           state (services h t) \<noteq> Destroyed \<longrightarrow>
           useCount (services h' t) < useCount (services h t)"
    if "state (services h s) \<noteq> Destroyed"
    using destroyService_takes_providers[OF run that] by blast
  with run show "\<exists>h'. destroyService fuel lookup s h = Some h' \<and>
           (state (services h s) \<noteq> Destroyed \<longrightarrow>
              (\<forall>t\<in>set (foundServices lookup (dependencies (services h s))).
                 state (services h t) \<noteq> Destroyed \<longrightarrow>
                 useCount (services h' t) < useCount (services h t)))"
    by blast
qed

theorem unresolved_dependency_in_destruction_witness:
  "(\<forall>t. sharingLookup (specOf (needs ''Q'' ''q'')) \<noteq> Found t)
   \<and> start 4 providerFirstLayer (freshHeap danglingDeps)
       = Some (Inl (Error INTERNAL
                 (FailedToFindService \<lparr>interfaceName = ''Q'', qualifier = None\<rparr> NotFound)),
               providerFirstLayer, danglingFailed)
   \<and> start 4 providerFirstLayer danglingFailed
       = Some (Inl (Error INTERNAL CycleDuringConstruction), providerFirstLayer, danglingRestarted)
   \<and> createDependencies (createService 2 sharingLookup) sharingLookup
        [needs ''Q'' ''q'', needs ''P'' ''p''] Map.empty (release 0 (release 2 danglingRestarted))
       = Some (Inl (Error INTERNAL (FailedToFindService (specOf (needs ''Q'' ''q''))
                 (sharingLookup (specOf (needs ''Q'' ''q''))))),
               release 0 (release 2 danglingRestarted))
   \<and> destroy 4 providerFirstLayer danglingRestarted
       = Some (providerFirstLayer\<lparr>layerState := LayerDestroyed\<rparr>, danglingDestroyed)
   \<and> state (services (release 2 danglingRestarted) 0) \<noteq> Destroyed
   \<and> state (services (release 2 danglingRestarted) 2) = Constructed
   \<and> useCount (services (release 2 danglingRestarted) 2) = 1
   \<and> dependencies (services (release 2 danglingRestarted) 0)
       = [needs ''Q'' ''q'', needs ''P'' ''p'']
   \<and> foundServices sharingLookup [needs ''Q'' ''q'', needs ''P'' ''p''] = [2]
   \<and> finite {0, 2 :: nat} \<and> (0::nat) \<in> {0, 2}
   \<and> remaining {0, 2} (release 2 danglingRestarted) < 4
   \<and> destroyDependencies (destroyService 3 sharingLookup) sharingLookup
        [needs ''Q'' ''q'', needs ''P'' ''p''] (release 0 (release 2 danglingRestarted))
       = Some danglingDestroyed
   \<and> destroyAll (destroyService 3 sharingLookup) [2] (release 0 (release 2 danglingRestarted))
       = Some danglingDestroyed
   \<and> destroyService 4 sharingLookup 0 (release 2 danglingRestarted) = Some danglingDestroyed
   \<and> useCount (services danglingDestroyed 2) < useCount (services (release 2 danglingRestarted) 2)
   \<and> state (services danglingDestroyed 2) = Destroyed
   \<and> calls danglingDestroyed = DestructorCall 2 0 # calls danglingFailed"
proof -
  let ?h = "release 2 danglingRestarted"
  note loop = unresolved_dependency_in_destruction[of sharingLookup "needs ''Q'' ''q''"
      "destroyService 3 sharingLookup" "[needs ''P'' ''p'']" "release 0 ?h"
      "createService 2 sharingLookup" Map.empty 0 3 "{0, 2}" 4]
  note visit = unresolved_dependency_in_destruction[of sharingLookup "needs ''Q'' ''q''"
      "destroyService 3 sharingLookup" "[needs ''P'' ''p'']" ?h
      "createService 2 sharingLookup" Map.empty 0 3 "{0, 2}" 4]
  have cl: "\<forall>spec t. sharingLookup spec = Found t \<longrightarrow> t \<in> {0, 2::nat}"
    by (simp add: sharingLookup_def)
  have fin: "finite {0, 2 :: nat}" "(0::nat) \<in> {0, 2}" by simp_all
  have alive: "state (services ?h 0) \<noteq> Destroyed" by (simp add: dangling_restarted_fields)
  from loop dangling_unresolved
  have 1: "destroyDependencies (destroyService 3 sharingLookup) sharingLookup
        [needs ''Q'' ''q'', needs ''P'' ''p''] (release 0 ?h)
       = destroyDependencies (destroyService 3 sharingLookup) sharingLookup
        [needs ''P'' ''p''] (release 0 ?h)" by blast
  from loop dangling_unresolved
  have 2: "createDependencies (createService 2 sharingLookup) sharingLookup
        [needs ''Q'' ''q'', needs ''P'' ''p''] Map.empty (release 0 ?h)
       = Some (Inl (Error INTERNAL (FailedToFindService (specOf (needs ''Q'' ''q''))
                 (sharingLookup (specOf (needs ''Q'' ''q''))))),
               release 0 ?h)" by blast
  from visit alive
  have "destroyService (Suc 3) sharingLookup 0 ?h
          = destroyAll (destroyService 3 sharingLookup)
              (foundServices sharingLookup (dependencies (services ?h 0))) (release 0 ?h)"
    by blast
  then have 3: "destroyAll (destroyService 3 sharingLookup) [2] (release 0 ?h)
       = Some danglingDestroyed"
    using dangling_restarted_visit
    by (simp add: dangling_restarted_fields dangling_found
        del: destroyService.simps destroyAll.simps)
  from visit cl fin dangling_restarted_remaining
  have "\<exists>h'. destroyService 4 sharingLookup 0 ?h = Some h' \<and>
           (state (services ?h 0) \<noteq> Destroyed \<longrightarrow>
              (\<forall>t\<in>set (foundServices sharingLookup (dependencies (services ?h 0))).
                 state (services ?h t) \<noteq> Destroyed \<longrightarrow>
                 useCount (services h' t) < useCount (services ?h t)))"
    by blast
  then have 4: "useCount (services danglingDestroyed 2) < useCount (services ?h 2)"
    using alive
    by (simp add: dangling_restarted_visit dangling_restarted_fields dangling_found)
  from dangling_unresolved providerFirst_start providerFirst_restart 2 providerFirst_destroy
    alive dangling_restarted_fields(2,3,5) dangling_found fin dangling_restarted_remaining
    1[unfolded dangling_restarted_loop] 3 dangling_restarted_visit 4
    dangling_destroyed_fields(1,4)
  show ?thesis by (intro conjI)
qed

text \<open>
  C1, as amended. Given two services S1 and S2 of a newly built layer that both declare a
  dependency on the same provider P, after a successful \<^verbatim>\<open>start\<close> the constructors
  of S1 and of S2 have run, and each has received, under the reference name of that
  dependency, the one instance of P. The reference count of P is one for the layer's own
  visit of P plus one for every declared dependency in the layer that resolves to P: it is 3
  when S1 and S2 are the only dependents, with one such dependency each. The claim as
  stated, with a count of 2, fails in the sharing scenario: the count there is 3.
\<close>

theorem shared_provider:
  assumes closed: "lookupClosed L" and fresh: "fresh h" and dist: "distinct (allServices L)"
    and run: "start fuel L h = Some (Inr u, L', h')"
    and s1: "s1 \<in> set (allServices L)" and s2: "s2 \<in> set (allServices L)"
    and d1: "d1 \<in> set (dependencies (services h s1))"
    and l1: "serviceLookup L (specOf d1) = Found p"
    and n1: "distinct (map referenceName (dependencies (services h s1)))"
    and d2: "d2 \<in> set (dependencies (services h s2))"
    and l2: "serviceLookup L (specOf d2) = Found p"
    and n2: "distinct (map referenceName (dependencies (services h s2)))"
  shows "\<exists>ip new. serviceInstance (services h' p) = Some ip \<and> calls h' = new @ calls h \<and>
           (\<exists>references i snapshot. ConstructorCall s1 references i snapshot \<in> set new) \<and>
           (\<exists>references i snapshot. ConstructorCall s2 references i snapshot \<in> set new) \<and>
           (\<forall>references i snapshot. ConstructorCall s1 references i snapshot \<in> set new \<longrightarrow>
               references (referenceName d1) = Some ip) \<and>
           (\<forall>references i snapshot. ConstructorCall s2 references i snapshot \<in> set new \<longrightarrow>
               references (referenceName d2) = Some ip) \<and>
           useCount (services h' p)
             = 1 + (\<Sum>s\<in>set (allServices L).
                      int (edgeCount (serviceLookup L) (dependencies (services h s)) p)) \<and>
           (s1 \<noteq> s2 \<and>
            (\<forall>s\<in>set (allServices L).
               edgeCount (serviceLookup L) (dependencies (services h s)) p
                 = (if s = s1 \<or> s = s2 then 1 else 0))
            \<longrightarrow> useCount (services h' p) = 3)"
proof -
  let ?lk = "serviceLookup L" and ?A = "set (allServices L)"
  from closed l1 have p: "p \<in> ?A" by (simp add: lookupClosed_def)
  from run have all: "createAll (createService fuel ?lk) (allServices L) h = Some (Inr (), h')"
    by (cases rule: start_cases) simp_all
  have c: "\<forall>s\<in>?A. state (services h' s) = Constructed"
    using all
    by (rule createAll_constructed[rotated 2])
       (auto dest: createService_success createService_frame)
  have "wellFormed ?lk h'" using run fresh by (auto intro: start_wellFormed fresh_wellFormed)
  with c p obtain ip where ip: "serviceInstance (services h' p) = Some ip"
    unfolding wellFormed_def by blast
  from start_handsOver[OF run] obtain new where k: "keeps h h'"
    and new: "calls h' = new @ calls h" and ho: "\<forall>c\<in>set new. handedOver ?lk h' c"
    and ex: "\<forall>s. state (services h' s) = Constructed \<longrightarrow> state (services h s) = Constructed \<or>
         (\<exists>references i snapshot. ConstructorCall s references i snapshot \<in> set new)"
    unfolding handsOver_def by blast
  from k have deps: "\<And>r. dependencies (services h' r) = dependencies (services h r)"
    by (simp add: keeps_def)
  have called: "\<exists>references i snapshot. ConstructorCall s references i snapshot \<in> set new"
    if "s \<in> ?A" for s
    using ex c that fresh by (auto simp: fresh_def)
  have passed: "refs (referenceName d) = Some ip"
    if "ConstructorCall s refs i snap \<in> set new" "d \<in> set (dependencies (services h s))"
      "?lk (specOf d) = Found p" "distinct (map referenceName (dependencies (services h s)))"
    for s refs i snap d
  proof -
    from ho that(1) have "handedOver ?lk h' (ConstructorCall s refs i snap)" by blast
    then have "\<forall>d\<in>set (dependencies (services h s)).
             \<exists>d'\<in>set (dependencies (services h s)). referenceName d' = referenceName d \<and>
               (\<exists>t. ?lk (specOf d') = Found t \<and> state (services h' t) = Constructed \<and>
                    refs (referenceName d) = serviceInstance (services h' t))"
      by (simp add: handedOver_def deps)
    with that(2) obtain d' t where *: "d' \<in> set (dependencies (services h s))"
      "referenceName d' = referenceName d" "?lk (specOf d') = Found t"
      "refs (referenceName d) = serviceInstance (services h' t)" by blast
    from same_reference_name[OF that(4) that(2) *(1) *(2)] have "d' = d" .
    with *(3) that(3) have "t = p" by simp
    with *(4) ip show ?thesis by simp
  qed
  have cnt: "useCount (services h' p)
             = 1 + (\<Sum>s\<in>?A. int (edgeCount ?lk (dependencies (services h s)) p))"
    using closed fresh dist run p by (rule start_useCount)
  have three: "useCount (services h' p) = 3"
    if "s1 \<noteq> s2 \<and> (\<forall>s\<in>?A. edgeCount ?lk (dependencies (services h s)) p
                 = (if s = s1 \<or> s = s2 then 1 else 0))"
  proof -
    from that have "(\<Sum>s\<in>?A. int (edgeCount ?lk (dependencies (services h s)) p)) = 2"
      by (intro sum_two_dependents[OF finite_set s1 s2]) simp_all
    with cnt show ?thesis by simp
  qed
  from ip new called[OF s1] called[OF s2] passed[OF _ d1 l1 n1] passed[OF _ d2 l2 n2] cnt three
  show ?thesis by (intro exI[of _ ip] exI[of _ new] conjI allI impI) blast+
qed

theorem shared_provider_witness:
  "lookupClosed sharingLayer \<and> fresh (freshHeap sharingDeps)
   \<and> distinct (allServices sharingLayer)
   \<and> start 2 sharingLayer (freshHeap sharingDeps)
        = Some (Inr (), sharingLayer\<lparr>layerState := Started\<rparr>, sharingStarted)
   \<and> 0 \<in> set (allServices sharingLayer) \<and> 1 \<in> set (allServices sharingLayer)
   \<and> needs ''P'' ''provider'' \<in> set (dependencies (services (freshHeap sharingDeps) 0))
   \<and> serviceLookup sharingLayer (specOf (needs ''P'' ''provider'')) = Found 2
   \<and> distinct (map referenceName (dependencies (services (freshHeap sharingDeps) 0)))
   \<and> needs ''P'' ''p'' \<in> set (dependencies (services (freshHeap sharingDeps) 1))
   \<and> serviceLookup sharingLayer (specOf (needs ''P'' ''p'')) = Found 2
   \<and> distinct (map referenceName (dependencies (services (freshHeap sharingDeps) 1)))
   \<and> serviceInstance (services sharingStarted 2) = Some 0
   \<and> (\<exists>new. calls sharingStarted = new @ calls (freshHeap sharingDeps) \<and>
         (\<exists>references i snapshot. ConstructorCall 0 references i snapshot \<in> set new \<and>
             references ''provider'' = Some 0) \<and>
         (\<exists>references i snapshot. ConstructorCall 1 references i snapshot \<in> set new \<and>
             references ''p'' = Some 0))
   \<and> useCount (services sharingStarted 2) = 3"
proof -
  have h: "distinct (allServices sharingLayer)" "0 \<in> set (allServices sharingLayer)"
    "1 \<in> set (allServices sharingLayer)"
    "needs ''P'' ''provider'' \<in> set (dependencies (services (freshHeap sharingDeps) 0))"
    "distinct (map referenceName (dependencies (services (freshHeap sharingDeps) 0)))"
    "needs ''P'' ''p'' \<in> set (dependencies (services (freshHeap sharingDeps) 1))"
    "distinct (map referenceName (dependencies (services (freshHeap sharingDeps) 1)))"
    by (simp_all add: sharing_allServices sharing_deps)
  from shared_provider[OF sharing_closed fresh_freshHeap h(1) sharing_start h(2,3) h(4)
      sharing_lookup_P h(5) h(6) sharing_lookup_P h(7)]
  obtain ip new where *: "serviceInstance (services sharingStarted 2) = Some ip"
    "calls sharingStarted = new @ calls (freshHeap sharingDeps)"
    "\<exists>references i snapshot. ConstructorCall 0 references i snapshot \<in> set new"
    "\<exists>references i snapshot. ConstructorCall 1 references i snapshot \<in> set new"
    "\<forall>references i snapshot. ConstructorCall 0 references i snapshot \<in> set new \<longrightarrow>
               references (referenceName (needs ''P'' ''provider'')) = Some ip"
    "\<forall>references i snapshot. ConstructorCall 1 references i snapshot \<in> set new \<longrightarrow>
               references (referenceName (needs ''P'' ''p'')) = Some ip"
    "(0::nat) \<noteq> 1 \<and>
            (\<forall>s\<in>set (allServices sharingLayer).
               edgeCount (serviceLookup sharingLayer) (dependencies (services (freshHeap sharingDeps) s)) 2
                 = (if s = 0 \<or> s = 1 then 1 else 0))
            \<longrightarrow> useCount (services sharingStarted 2) = 3"
    by blast
  from *(1) sharing_started_instances(1) have ip: "ip = 0" by simp
  from *(7) sharing_edges have three: "useCount (services sharingStarted 2) = 3" by simp
  have rn: "referenceName (needs ''P'' ''provider'') = ''provider''"
    "referenceName (needs ''P'' ''p'') = ''p''" by (simp_all add: needs_def)
  from *(3,5) ip rn have a: "\<exists>references i snapshot. ConstructorCall 0 references i snapshot \<in> set new \<and>
             references ''provider'' = Some 0" by metis
  from *(4,6) ip rn have b: "\<exists>references i snapshot. ConstructorCall 1 references i snapshot \<in> set new \<and>
             references ''p'' = Some 0" by metis
  from *(2) a b have "\<exists>new. calls sharingStarted = new @ calls (freshHeap sharingDeps) \<and>
         (\<exists>references i snapshot. ConstructorCall 0 references i snapshot \<in> set new \<and>
             references ''provider'' = Some 0) \<and>
         (\<exists>references i snapshot. ConstructorCall 1 references i snapshot \<in> set new \<and>
             references ''p'' = Some 0)" by blast
  with sharing_closed fresh_freshHeap h sharing_start sharing_lookup_P
    sharing_started_instances(1) three
  show ?thesis by (intro conjI)
qed

theorem shared_provider_counterexample:
  "dependencies (services (freshHeap sharingDeps) 0) = [needs ''P'' ''provider'']
   \<and> dependencies (services (freshHeap sharingDeps) 1) = [needs ''P'' ''p'']
   \<and> serviceLookup sharingLayer (specOf (needs ''P'' ''provider'')) = Found 2
   \<and> serviceLookup sharingLayer (specOf (needs ''P'' ''p'')) = Found 2
   \<and> start 2 sharingLayer (freshHeap sharingDeps)
        = Some (Inr (), sharingLayer\<lparr>layerState := Started\<rparr>, sharingStarted)
   \<and> useCount (services sharingStarted 2) = 3
   \<and> useCount (services sharingStarted 2) \<noteq> 2"
proof -
  have "useCount (services sharingStarted 2) = 3"
    by (simp add: sharingStarted_def addRef_fields create_fields beforeCreate_fields)
  then show ?thesis
    by (simp add: sharing_start) (simp add: sharing_defs)
qed

text \<open>
  The sharing scenario on its own (a newly built layer of exactly the services S1, S2 and P, in
  any order, where S1 and S2 each have one dependency, on P, and P has none), \<^verbatim>\<open>start\<close>
  followed by \<^verbatim>\<open>destroy\<close> runs three destructors: the one of P runs once and last,
  after those of S1 and S2. In general a visit to a destroyed service does nothing, and a
  visit to any other service removes one reference and destroys the service, calling the
  destructor of its instance, exactly when the new count is zero or below.
\<close>

theorem shared_provider_destroyed_once:
  assumes ne: "s1 \<noteq> s2" "s1 \<noteq> p" "s2 \<noteq> p"
    and deps: "dependencies (services h s1) = [d1]" "dependencies (services h s2) = [d2]"
      "dependencies (services h p) = []"
    and lk: "serviceLookup L (specOf d1) = Found p" "serviceLookup L (specOf d2) = Found p"
    and fresh: "fresh h" and ns: "layerState L = NotStarted"
    and dist: "distinct (allServices L)" and all: "set (allServices L) = {s1, s2, p}"
    and fuel: "2 \<le> fuel" "2 \<le> fuel'"
  shows "(\<exists>h1 h2 order.
            start fuel L h = Some (Inr (), L\<lparr>layerState := Started\<rparr>, h1) \<and>
            destroy fuel' (L\<lparr>layerState := Started\<rparr>) h1
              = Some (L\<lparr>layerState := LayerDestroyed\<rparr>, h2) \<and>
            destructorRuns (calls h2) = order @ destructorRuns (calls h) \<and>
            (order = [p, s2, s1] \<or> order = [p, s1, s2]) \<and>
            state (services h2 s1) = Destroyed \<and> state (services h2 s2) = Destroyed \<and>
            state (services h2 p) = Destroyed)
       \<and> (state (services k r) = Destroyed \<longrightarrow> destroyService (Suc g) lookup r k = Some k)
       \<and> (state (services k r) \<noteq> Destroyed \<longrightarrow>
            destroyService (Suc g) lookup r k
              = destroyDependencies (destroyService g lookup) lookup
                  (dependencies (services k r)) (release r k) \<and>
            useCount (services (release r k) r) = useCount (services k r) - 1 \<and>
            (state (services (release r k) r) = Destroyed
               \<longleftrightarrow> useCount (services k r) - 1 \<le> 0) \<and>
            (\<forall>i. serviceInstance (services k r) = Some i \<longrightarrow>
                 calls (release r k)
                   = (if useCount (services k r) - 1 \<le> 0 then DestructorCall r i # calls k
                      else calls k)))"
proof (intro conjI)
  from fuel obtain n m where f: "fuel = Suc (Suc n)" "fuel' = Suc (Suc m)"
    by (metis add_2_eq_Suc le_Suc_ex)
  from three_orders[OF dist all ne]
  have "sharingLifecycle (Suc (Suc n)) (Suc (Suc m)) L h s1 s2 p [p, s2, s1] \<or>
        sharingLifecycle (Suc (Suc n)) (Suc (Suc m)) L h s2 s1 p [p, s1, s2]"
  proof (elim disjE)
    assume "allServices L = [s1, s2, p]"
    from scenario_s1_s2_p[OF ne deps lk fresh ns this] show ?thesis by blast
  next
    assume "allServices L = [s1, p, s2]"
    from scenario_s1_p_s2[OF ne deps lk fresh ns this] show ?thesis by blast
  next
    assume "allServices L = [p, s1, s2]"
    from scenario_p_s1_s2[OF ne deps lk fresh ns this] show ?thesis by blast
  next
    assume "allServices L = [s2, s1, p]"
    from scenario_s1_s2_p[OF ne(1)[symmetric] ne(3) ne(2) deps(2) deps(1) deps(3) lk(2) lk(1)
        fresh ns this] show ?thesis by blast
  next
    assume "allServices L = [s2, p, s1]"
    from scenario_s1_p_s2[OF ne(1)[symmetric] ne(3) ne(2) deps(2) deps(1) deps(3) lk(2) lk(1)
        fresh ns this] show ?thesis by blast
  next
    assume "allServices L = [p, s2, s1]"
    from scenario_p_s1_s2[OF ne(1)[symmetric] ne(3) ne(2) deps(2) deps(1) deps(3) lk(2) lk(1)
        fresh ns this] show ?thesis by blast
  qed
  then show "\<exists>h1 h2 order.
            start fuel L h = Some (Inr (), L\<lparr>layerState := Started\<rparr>, h1) \<and>
            destroy fuel' (L\<lparr>layerState := Started\<rparr>) h1
              = Some (L\<lparr>layerState := LayerDestroyed\<rparr>, h2) \<and>
            destructorRuns (calls h2) = order @ destructorRuns (calls h) \<and>
            (order = [p, s2, s1] \<or> order = [p, s1, s2]) \<and>
            state (services h2 s1) = Destroyed \<and> state (services h2 s2) = Destroyed \<and>
            state (services h2 p) = Destroyed"
    unfolding sharingLifecycle_def f by blast
next
  show "state (services k r) = Destroyed \<longrightarrow> destroyService (Suc g) lookup r k = Some k"
    by (simp add: destroyService_Suc del: destroyService.simps)
next
  show "state (services k r) \<noteq> Destroyed \<longrightarrow>
            destroyService (Suc g) lookup r k
              = destroyDependencies (destroyService g lookup) lookup
                  (dependencies (services k r)) (release r k) \<and>
            useCount (services (release r k) r) = useCount (services k r) - 1 \<and>
            (state (services (release r k) r) = Destroyed
               \<longleftrightarrow> useCount (services k r) - 1 \<le> 0) \<and>
            (\<forall>i. serviceInstance (services k r) = Some i \<longrightarrow>
                 calls (release r k)
                   = (if useCount (services k r) - 1 \<le> 0 then DestructorCall r i # calls k
                      else calls k))"
    by (simp add: destroyService_Suc release_fields del: destroyService.simps)
qed

theorem shared_provider_destroyed_once_witness:
  "(0::nat) \<noteq> 1 \<and> (0::nat) \<noteq> 2 \<and> (1::nat) \<noteq> 2
   \<and> dependencies (services (freshHeap sharingDeps) 0) = [needs ''P'' ''provider'']
   \<and> dependencies (services (freshHeap sharingDeps) 1) = [needs ''P'' ''p'']
   \<and> dependencies (services (freshHeap sharingDeps) 2) = []
   \<and> serviceLookup sharingLayer (specOf (needs ''P'' ''provider'')) = Found 2
   \<and> serviceLookup sharingLayer (specOf (needs ''P'' ''p'')) = Found 2
   \<and> fresh (freshHeap sharingDeps) \<and> layerState sharingLayer = NotStarted
   \<and> distinct (allServices sharingLayer) \<and> set (allServices sharingLayer) = {0, 1, 2}
   \<and> (2::nat) \<le> 2 \<and> (2::nat) \<le> 9
   \<and> start 2 sharingLayer (freshHeap sharingDeps)
        = Some (Inr (), sharingLayer\<lparr>layerState := Started\<rparr>, sharingStarted)
   \<and> destroy 9 (sharingLayer\<lparr>layerState := Started\<rparr>) sharingStarted
        = Some (sharingLayer\<lparr>layerState := LayerDestroyed\<rparr>, sharingDestroyed)
   \<and> destructorRuns (calls sharingDestroyed) = [2, 1, 0]
   \<and> state (services sharingDestroyed 0) = Destroyed
   \<and> state (services sharingDestroyed 1) = Destroyed
   \<and> state (services sharingDestroyed 2) = Destroyed"
proof -
  have ne: "(0::nat) \<noteq> 1" "(0::nat) \<noteq> 2" "(1::nat) \<noteq> 2" by simp_all
  have d: "distinct (allServices sharingLayer)" by (simp add: sharing_allServices)
  have f: "(2::nat) \<le> 2" "(2::nat) \<le> 9" by simp_all
  from shared_provider_destroyed_once[OF ne sharing_deps(1,2,3) sharing_lookup_P sharing_lookup_P
      fresh_freshHeap sharing_notStarted d sharing_set f]
  obtain h1 h2 where
    *: "start 2 sharingLayer (freshHeap sharingDeps)
          = Some (Inr (), sharingLayer\<lparr>layerState := Started\<rparr>, h1)"
       "destroy 9 (sharingLayer\<lparr>layerState := Started\<rparr>) h1
          = Some (sharingLayer\<lparr>layerState := LayerDestroyed\<rparr>, h2)"
       "state (services h2 0) = Destroyed" "state (services h2 1) = Destroyed"
       "state (services h2 2) = Destroyed"
    by blast
  from *(1) sharing_start have h1: "h1 = sharingStarted" by simp
  with *(2) sharing_destroy have h2: "h2 = sharingDestroyed" by simp
  from *(3,4,5) h2 have s: "state (services sharingDestroyed 0) = Destroyed"
    "state (services sharingDestroyed 1) = Destroyed"
    "state (services sharingDestroyed 2) = Destroyed" by simp_all
  from ne sharing_deps(1,2,3) sharing_lookup_P[of "''provider''"] sharing_lookup_P[of "''p''"]
    fresh_freshHeap sharing_notStarted d sharing_set f sharing_start sharing_destroy
    sharing_destructorRuns s
  show ?thesis by (intro conjI)
qed

text \<open>
  C2. In the sharing scenario P's destructor is to run once, and only after destruction
  has been attempted on both services that depend on it. With two further services that
  depend on S1, \<^verbatim>\<open>start\<close> succeeds and leaves P with three references, of which S1
  accounts for one; \<^verbatim>\<open>destroy\<close> visits S1 three times and releases P through it each
  time, so that P is destroyed, and its destructor called, while S2 is still constructed
  and has not been visited. The destructors run in the order A, B, S1, P, S2.
\<close>

theorem shared_provider_destroyed_early:
  "start 6 nestedLayer (freshHeap nestedDeps)
     = Some (Inr (), nestedLayer\<lparr>layerState := Started\<rparr>, nestedStarted)
   \<and> dependencies (services nestedStarted 3) = [needs ''P'' ''p'']
   \<and> nestedLookup (specOf (needs ''P'' ''p'')) = Found 4
   \<and> useCount (services nestedStarted 4) = 3
   \<and> destroy 6 (nestedLayer\<lparr>layerState := Started\<rparr>) nestedStarted
     = Some (nestedLayer\<lparr>layerState := LayerDestroyed\<rparr>, release 3 nestedProviderGone)
   \<and> state (services nestedProviderGone 4) = Destroyed
   \<and> destructorRuns (calls nestedProviderGone) = [4, 2, 1, 0]
   \<and> state (services nestedProviderGone 3) = Constructed
   \<and> useCount (services nestedProviderGone 3) = useCount (services nestedStarted 3)
   \<and> destructorRuns (calls (release 3 nestedProviderGone)) = [3, 4, 2, 1, 0]"
proof -
  have l: "nestedLookup (specOf (needs ''P'' ''p'')) = Found 4"
    by (simp add: nestedLookup_def specOf_def needs_def)
  have u: "useCount (services nestedProviderGone 3) = useCount (services nestedStarted 3)"
    by (simp add: nested_gone_fields nested_started_fields)
  from nested_start nested_started_fields(8) l nested_started_fields(1)
    nested_destroy[unfolded nestedDestroyed_def] nested_gone_fields(1)
    nested_destructorRuns(1) nested_gone_fields(2) u
    nested_destructorRuns(2)[unfolded nestedDestroyed_def]
  show ?thesis by (intro conjI)
qed

end
